theory Spec2Isabelle
  imports Complex_Main
begin

section \<open>Data model of \<open>kaggletools/titanic.py\<close>\<close>

text \<open>
  The data frame \<open>self.data\<close> is a list of rows in index order. A missing value (NaN) of
  a column is \<open>None\<close>. The \<open>Sex\<close> column is documented as a string, but the code compares
  it both with the string \<open>'female'\<close> and with the number \<open>1\<close>, so a cell of that column is
  a string or a number. Rates and fares are floats in the source; they are exact rationals
  here. \<open>Lastname\<close> and \<open>SecondaryLastname\<close> are the columns the constructor of
  \<open>FamilyPredictor\<close> leaves alone when the frame already has them.
\<close>

datatype pyval = Str string | Num int

datatype py_error = IndexError | KeyError | NameError | IndexingError | ValueError

record passenger =
  PassengerId :: int
  Pclass :: int
  Sex :: pyval
  Embarked :: string
  Lastname :: string
  SecondaryLastname :: "string option"
  Fare :: "rat option"
  Ticket :: string
  Cabin :: "string option"
  SibSp :: int
  Parch :: int
  Survived :: "int option"

text \<open>A row of the frame \<open>self.families\<close>; its index label is its position in the list.\<close>

record family =
  fPclass :: int
  fEmbarked :: string
  fLastname :: string
  fId :: nat
  Size :: nat

text \<open>The state the grouping mutates: the \<open>Family\<close> column of the data and \<open>self.families\<close>.\<close>

record grouping =
  Family :: "nat option list"
  families :: "family list"

text \<open>A comparison \<open>x == np.NaN\<close> is false for every \<open>x\<close>, missing or not.\<close>

definition eq_nan :: "string option \<Rightarrow> bool" where
  "eq_nan x = False"

text \<open>The mask \<open>column == v\<close> for a cell \<open>v\<close> read from the frame: a missing cell equals nothing.\<close>

definition cell_eq :: "'a option \<Rightarrow> 'a option \<Rightarrow> bool" where
  "cell_eq x v = (case v of None \<Rightarrow> False | Some b \<Rightarrow> x = Some b)"

section \<open>FamilyPredictor: the grouping\<close>

definition new_family :: "passenger \<Rightarrow> family list \<Rightarrow> nat \<times> family list" where
  "new_family p fams =
     (let idx = length fams
      in (idx, fams @ [\<lparr>fPclass = Pclass p, fEmbarked = Embarked p, fLastname = Lastname p,
                        fId = idx, Size = 0\<rparr>]))"

definition find_family :: "passenger \<Rightarrow> family list \<Rightarrow> nat \<times> family list" where
  "find_family p all_fams =
     (let fams = filter (\<lambda>g. fPclass g = Pclass p \<and> fEmbarked g = Embarked p) all_fams
      in if fams = [] then new_family p all_fams
         else let exact = filter (\<lambda>g. fLastname g = Lastname p) fams
              in if exact \<noteq> [] then (fId (hd exact), all_fams)
                 else if eq_nan (SecondaryLastname p) then new_family p all_fams
                 else let secondary = filter (\<lambda>g. cell_eq (Some (fLastname g)) (SecondaryLastname p)) fams
                      in if exact \<noteq> [] then (fId (hd exact), all_fams)
                         else new_family p all_fams)"

text \<open>Lines 373 to 379: one round of the first loop of \<open>_fill_family_ids\<close>, for the row \<open>i\<close>.\<close>

definition assign_family :: "passenger list \<Rightarrow> nat \<Rightarrow> grouping \<Rightarrow> grouping" where
  "assign_family tbl i st =
     (let p = tbl ! i
      in if SibSp p = 0 \<and> Parch p = 0 then st
         else let (f, fams) = find_family p (families st)
              in \<lparr>Family = (Family st)[i := Some f],
                  families = map (\<lambda>g. if fId g = f then g\<lparr>Size := Size g + 1\<rparr> else g) fams\<rparr>)"

definition initial :: "passenger list \<Rightarrow> grouping" where
  "initial tbl = \<lparr>Family = replicate (length tbl) None, families = []\<rparr>"

definition group_rows :: "passenger list \<Rightarrow> grouping" where
  "group_rows tbl = fold (assign_family tbl) [0..<length tbl] (initial tbl)"

text \<open>The rows of the data selected by the mask \<open>self.data.Family == fid\<close>, in index order.\<close>

definition members :: "passenger list \<Rightarrow> nat option list \<Rightarrow> nat \<Rightarrow> passenger list" where
  "members tbl col fid = map fst (filter (\<lambda>(p, v). v = Some fid) (zip tbl col))"

text \<open>
  Lines 392 to 396: the body of the loop over the groups whose \<open>Lastname\<close> is the lone
  member's \<open>SecondaryLastname\<close>; the loop leaves after its first round. \<open>f\<close> is the index
  label of the visited group, \<open>fid\<close> its \<open>Id\<close>, \<open>h\<close> the first group found.
\<close>

definition absorb :: "passenger list \<Rightarrow> nat \<Rightarrow> nat \<Rightarrow> family \<Rightarrow> grouping \<Rightarrow> grouping" where
  "absorb tbl f fid h st =
     (let fam_id = fId h;
          c = length (members tbl (Family st) fid);
          fams1 = map (\<lambda>g. if fId g = fam_id then g\<lparr>Size := Size g + c\<rparr> else g) (families st);
          col = map (\<lambda>v. if v = Some fid then Some fam_id else v) (Family st)
      in \<lparr>Family = col, families = fams1[f := (fams1 ! f)\<lparr>Size := 0\<rparr>]\<rparr>)"

text \<open>
  Lines 400 to 403: the two tests before the sibling search. The row is looked up again
  by \<open>PassengerId\<close>; \<open>.iloc[0]\<close> on an empty selection raises IndexError.
\<close>

definition sibling_gate :: "passenger list \<Rightarrow> int \<Rightarrow> py_error + bool" where
  "sibling_gate tbl pid =
     (case filter (\<lambda>p. PassengerId p = pid) tbl of
        [] \<Rightarrow> Inl IndexError
      | p # _ \<Rightarrow> if SibSp p = 0 then Inr False
                 else if Sex p \<noteq> Num 1 then Inr False
                 else Inr True)"

text \<open>
  Lines 404 to 414. Line 413 reads \<open>data.Family\<close>, and no name \<open>data\<close> is bound in the
  method or in the module: once a sister is found and line 412 has run, the method ends
  with NameError.
\<close>

definition sibling_merge ::
  "passenger list \<Rightarrow> nat \<Rightarrow> int \<Rightarrow> string option \<Rightarrow> int \<Rightarrow> string \<Rightarrow> grouping \<Rightarrow> py_error + grouping" where
  "sibling_merge tbl fid pid second_name pclass emb st =
     (let sisters = filter (\<lambda>(p, v). cell_eq (SecondaryLastname p) second_name \<and> Sex p = Str ''female''
                                     \<and> Pclass p = pclass \<and> Embarked p = emb \<and> PassengerId p \<noteq> pid)
                           (zip tbl (Family st))
      in case sisters of
           [] \<Rightarrow> Inr st
         | (q, fam_id) # _ \<Rightarrow>
             (let c = length (members tbl (Family st) fid);
                  fams1 = map (\<lambda>g. if cell_eq (Some (fId g)) fam_id then g\<lparr>Size := Size g + c\<rparr> else g)
                              (families st)
              in Inl NameError))"

definition sibling_branch ::
  "passenger list \<Rightarrow> nat \<Rightarrow> int \<Rightarrow> string option \<Rightarrow> int \<Rightarrow> string \<Rightarrow> grouping \<Rightarrow> py_error + grouping" where
  "sibling_branch tbl fid pid second_name pclass emb st =
     (case sibling_gate tbl pid of
        Inl e \<Rightarrow> Inl e
      | Inr False \<Rightarrow> Inr st
      | Inr True \<Rightarrow> sibling_merge tbl fid pid second_name pclass emb st)"

text \<open>Lines 381 to 414: one round of the second loop of \<open>_fill_family_ids\<close>, for the group \<open>f\<close>.\<close>

definition merge_visit :: "passenger list \<Rightarrow> nat \<Rightarrow> grouping \<Rightarrow> py_error + grouping" where
  "merge_visit tbl f st =
     (if Size (families st ! f) \<noteq> 1 then Inr st
      else let fid = fId (families st ! f)
           in case members tbl (Family st) fid of
                [] \<Rightarrow> Inl IndexError
              | m # _ \<Rightarrow>
                  (let pid = PassengerId m; pclass = Pclass m; emb = Embarked m;
                       second_name = SecondaryLastname m
                   in if eq_nan second_name then Inr st
                      else let fams = filter (\<lambda>g. cell_eq (Some (fLastname g)) second_name) (families st);
                               st1 = (case fams of [] \<Rightarrow> st | h # _ \<Rightarrow> absorb tbl f fid h st)
                           in if Size (families st1 ! f) = 0 then Inr st1
                              else sibling_branch tbl fid pid second_name pclass emb st1))"

fun merge_loop :: "passenger list \<Rightarrow> nat list \<Rightarrow> grouping \<Rightarrow> py_error + grouping" where
  "merge_loop tbl [] st = Inr st"
| "merge_loop tbl (f # fs) st =
     (case merge_visit tbl f st of Inl e \<Rightarrow> Inl e | Inr st1 \<Rightarrow> merge_loop tbl fs st1)"

text \<open>Lines 380 to 414: the singleton-merge pass, over the index of \<open>self.families\<close>.\<close>

definition merge_pass :: "passenger list \<Rightarrow> grouping \<Rightarrow> py_error + grouping" where
  "merge_pass tbl st = merge_loop tbl [0..<length (families st)] st"

text \<open>Lines 365 to 371: one round of the loop of the fare mode; the state is the column and \<open>fid\<close>.\<close>

definition fare_step :: "passenger list \<Rightarrow> nat \<Rightarrow> nat option list \<times> nat \<Rightarrow> nat option list \<times> nat" where
  "fare_step tbl i s =
     (let (col, fid) = s; f = Fare (tbl ! i); l = Lastname (tbl ! i)
      in if col ! i \<noteq> None then s
         else (map (\<lambda>(p, v). if cell_eq (Fare p) f \<and> Lastname p = l then Some fid else v) (zip tbl col),
               fid + 1))"

definition fare_groups :: "passenger list \<Rightarrow> nat option list" where
  "fare_groups tbl = fst (fold (fare_step tbl) [0..<length tbl] (replicate (length tbl) None, 0))"

text \<open>\<open>_fill_family_ids\<close>, for either value of \<open>use_fare\<close>.\<close>

definition fill_family_ids :: "bool \<Rightarrow> passenger list \<Rightarrow> py_error + grouping" where
  "fill_family_ids use_fare tbl =
     (if use_fare then Inr \<lparr>Family = fare_groups tbl, families = []\<rparr>
      else merge_pass tbl (group_rows tbl))"

section \<open>Leave-one-out rates\<close>

text \<open>\<open>Series.unique()\<close>: the values of a column, each once, in the order of first appearance.\<close>

definition unique :: "'a list \<Rightarrow> 'a list" where
  "unique xs = rev (remdups (rev xs))"

text \<open>\<open>max\<close>, \<open>min\<close> and \<open>mean\<close> of a column skip the missing cells and are missing when no cell is left.\<close>

definition col_max :: "int option list \<Rightarrow> int option" where
  "col_max vs = (case List.map_filter id vs of [] \<Rightarrow> None | x # xs \<Rightarrow> Some (fold max xs x))"

definition col_min :: "int option list \<Rightarrow> int option" where
  "col_min vs = (case List.map_filter id vs of [] \<Rightarrow> None | x # xs \<Rightarrow> Some (fold min xs x))"

definition col_mean :: "int option list \<Rightarrow> rat option" where
  "col_mean vs =
     (let known = List.map_filter id vs
      in if known = [] then None else Some (of_int (sum_list known) / of_nat (length known)))"

text \<open>
  The thresholded rate from the \<open>Survived\<close> cells of the other rows of the group, as lines
  168 to 177, 274 to 277 and 510 to 519 compute it; \<open>None\<close> where no branch assigns.
\<close>

definition thresholded :: "bool \<Rightarrow> int option list \<Rightarrow> rat option" where
  "thresholded fill_if_not_any_survived others =
     (if fill_if_not_any_survived
      then (if col_max others = Some 1 then Some 1
            else if col_min others = Some 0 then Some 0 else None)
      else (if col_min others = Some 1 then Some 1
            else if col_max others = Some 0 then Some 0 else None))"

text \<open>Lines 179 to 186 and 279 to 286: the rate from the counts of the group and the row's own cell.\<close>

definition counted_rate :: "nat \<Rightarrow> nat \<Rightarrow> int option \<Rightarrow> rat option" where
  "counted_rate s0 d0 own =
     (let s = int s0 - (if own = Some 1 then 1 else 0);
          d = int d0 - (if own = Some 0 then 1 else 0)
      in if s + d \<noteq> 0 then Some (of_int s / of_int (s + d)) else None)"

text \<open>A dictionary filled in a loop over the keys \<open>ks\<close>.\<close>

definition dict_of :: "'k list \<Rightarrow> ('k \<Rightarrow> nat) \<Rightarrow> ('k \<rightharpoonup> nat)" where
  "dict_of ks f = map_of (map (\<lambda>k. (k, f k)) ks)"

definition lookup :: "('k \<rightharpoonup> nat) \<Rightarrow> 'k \<Rightarrow> py_error + nat" where
  "lookup m k = (case m k of None \<Rightarrow> Inl KeyError | Some v \<Rightarrow> Inr v)"

text \<open>A loop that writes one cell per row and stops at the first exception.\<close>

fun collect :: "(py_error + 'a) list \<Rightarrow> py_error + 'a list" where
  "collect [] = Inr []"
| "collect (x # xs) =
     (case x of Inl e \<Rightarrow> Inl e
      | Inr v \<Rightarrow> (case collect xs of Inl e \<Rightarrow> Inl e | Inr vs \<Rightarrow> Inr (v # vs)))"

definition class_mean :: "passenger list \<Rightarrow> int \<Rightarrow> rat option" where
  "class_mean tbl c = col_mean (map Survived (filter (\<lambda>p. Pclass p = c) tbl))"

definition fillna :: "rat option \<Rightarrow> rat option \<Rightarrow> rat option" where
  "fillna r v = (case r of None \<Rightarrow> v | Some x \<Rightarrow> Some x)"

subsection \<open>TicketCounter\<close>

definition ticket_counts :: "passenger list \<Rightarrow> (string \<rightharpoonup> nat)" where
  "ticket_counts tbl = dict_of (unique (map Ticket tbl)) (\<lambda>t. length (filter (\<lambda>p. Ticket p = t) tbl))"

definition ticket_surv :: "passenger list \<Rightarrow> (string \<rightharpoonup> nat)" where
  "ticket_surv tbl =
     dict_of (unique (map Ticket tbl)) (\<lambda>t. length (filter (\<lambda>p. Ticket p = t \<and> Survived p = Some 1) tbl))"

definition ticket_died :: "passenger list \<Rightarrow> (string \<rightharpoonup> nat)" where
  "ticket_died tbl =
     dict_of (unique (map Ticket tbl)) (\<lambda>t. length (filter (\<lambda>p. Ticket p = t \<and> Survived p = Some 0) tbl))"

text \<open>Lines 165 to 186: the cell of \<open>TicketRate\<close> the loop leaves for the row \<open>p\<close>.\<close>

definition ticket_rate :: "bool \<Rightarrow> bool \<Rightarrow> passenger list \<Rightarrow> passenger \<Rightarrow> py_error + rat option" where
  "ticket_rate simplified fill_if_not_any_survived tbl p =
     (let ticket = Ticket p; pid = PassengerId p
      in if simplified
         then Inr (thresholded fill_if_not_any_survived
                    (map Survived (filter (\<lambda>q. Ticket q = ticket \<and> PassengerId q \<noteq> pid) tbl)))
         else (case lookup (ticket_surv tbl) ticket of
                 Inl e \<Rightarrow> Inl e
               | Inr s \<Rightarrow> (case lookup (ticket_died tbl) ticket of
                             Inl e \<Rightarrow> Inl e
                           | Inr d \<Rightarrow> Inr (counted_rate s d (Survived p)))))"

definition ticket_loo_rates :: "bool \<Rightarrow> bool \<Rightarrow> passenger list \<Rightarrow> py_error + rat option list" where
  "ticket_loo_rates simplified fill_if_not_any_survived tbl =
     collect (map (ticket_rate simplified fill_if_not_any_survived tbl) tbl)"

text \<open>Line 191, for one class \<open>c\<close>.\<close>

definition fill_class :: "passenger list \<Rightarrow> int \<Rightarrow> rat option list \<Rightarrow> rat option list" where
  "fill_class tbl c rates =
     map (\<lambda>(p, r). if Pclass p = c then fillna r (class_mean tbl c) else r) (zip tbl rates)"

text \<open>Lines 187 to 191.\<close>

definition ticket_fallback :: "bool \<Rightarrow> passenger list \<Rightarrow> rat option list \<Rightarrow> rat option list" where
  "ticket_fallback simplified tbl rates =
     (if simplified then map (\<lambda>r. fillna r (Some (1 / 2))) rates
      else fold (fill_class tbl) (unique (map Pclass tbl)) rates)"

record ticket_columns =
  TicketCount :: "nat list"
  TicketRate :: "rat option list"

definition fill_ticket_rates :: "bool \<Rightarrow> bool \<Rightarrow> passenger list \<Rightarrow> py_error + ticket_columns" where
  "fill_ticket_rates simplified fill_if_not_any_survived tbl =
     (case collect (map (\<lambda>p. lookup (ticket_counts tbl) (Ticket p)) tbl) of
        Inl e \<Rightarrow> Inl e
      | Inr counts \<Rightarrow>
          (case ticket_loo_rates simplified fill_if_not_any_survived tbl of
             Inl e \<Rightarrow> Inl e
           | Inr rates \<Rightarrow> Inr \<lparr>TicketCount = counts, TicketRate = ticket_fallback simplified tbl rates\<rparr>))"

subsection \<open>CabinCounter and the filler\<close>

text \<open>
  A filler is a pandas Series: values under index labels. The rows of the data frame are
  labelled by their positions 0, 1, 2 and so on, and a filler is read here as a Series
  whose labels are distinct positions: entry \<open>k\<close> of the list tells whether the Series has
  the label \<open>k\<close>, and which value (possibly NaN) stands there. A label from the length of
  the list on is a label the Series lacks.
\<close>

datatype entry = NoLabel | Cell "rat option"

type_synonym series = "entry list"

definition has_label :: "series \<Rightarrow> nat \<Rightarrow> bool" where
  "has_label fl k = (k < length fl \<and> fl ! k \<noteq> NoLabel)"

text \<open>
  The constructors of \<open>CabinCounter\<close> and \<open>FamilyPredictor\<close>: the filler given by the
  caller, or 0.5 under every label of the data, or under every label of the data the mean
  of \<open>Survived\<close> of the row's class.
\<close>

definition default_filler :: "bool \<Rightarrow> passenger list \<Rightarrow> series" where
  "default_filler simplified tbl =
     (if simplified then replicate (length tbl) (Cell (Some (1 / 2)))
      else fold (\<lambda>c fl. map (\<lambda>(p, v). if Pclass p = c then Cell (class_mean tbl c) else v) (zip tbl fl))
             (unique (map Pclass tbl)) (replicate (length tbl) (Cell None)))"


text \<open>
  Lines 287, 522 and 524 have the form
  \<open>data.loc[m, col] = self.filler.loc[m]\<close> for a boolean mask \<open>m\<close> over the rows of the data.
  The selection \<open>self.filler.loc[m]\<close> aligns the mask with the filler's index: it raises
  \<open>IndexingError\<close> when the filler has a label that the mask (the data) lacks, whatever
  the mask selects, and otherwise keeps the filler's cells under the selected labels. The
  assignment aligns that selection with the selected rows: a selected row takes the
  filler's cell under its label, and NaN when the filler has no such label.
\<close>

definition unalignable :: "series \<Rightarrow> nat \<Rightarrow> bool" where
  "unalignable fl n = list_ex (has_label fl) [n..<length fl]"




definition cabin_counts :: "passenger list \<Rightarrow> (string \<rightharpoonup> nat)" where
  "cabin_counts tbl =
     dict_of (unique (List.map_filter Cabin tbl)) (\<lambda>c. length (filter (\<lambda>p. Cabin p = Some c) tbl))"

definition cabin_surv :: "passenger list \<Rightarrow> (string \<rightharpoonup> nat)" where
  "cabin_surv tbl =
     dict_of (unique (List.map_filter Cabin tbl))
       (\<lambda>c. length (filter (\<lambda>p. Cabin p = Some c \<and> Survived p = Some 1) tbl))"

definition cabin_died :: "passenger list \<Rightarrow> (string \<rightharpoonup> nat)" where
  "cabin_died tbl =
     dict_of (unique (List.map_filter Cabin tbl))
       (\<lambda>c. length (filter (\<lambda>p. Cabin p = Some c \<and> Survived p = Some 0) tbl))"

text \<open>Lines 269 to 286: the cell of \<open>CabinRate\<close> the loop leaves for the row \<open>p\<close>.\<close>

definition cabin_rate :: "bool \<Rightarrow> passenger list \<Rightarrow> passenger \<Rightarrow> py_error + rat option" where
  "cabin_rate simplified tbl p =
     (case Cabin p of
        None \<Rightarrow> Inr None
      | Some cabin \<Rightarrow>
          (if cabin_counts tbl cabin = None then Inr None
           else let pid = PassengerId p
                in if simplified
                   then Inr (thresholded False
                              (map Survived (filter (\<lambda>q. Cabin q = Some cabin \<and> PassengerId q \<noteq> pid) tbl)))
                   else (case lookup (cabin_surv tbl) cabin of
                           Inl e \<Rightarrow> Inl e
                         | Inr s \<Rightarrow> (case lookup (cabin_died tbl) cabin of
                                       Inl e \<Rightarrow> Inl e
                                     | Inr d \<Rightarrow> Inr (counted_rate s d (Survived p))))))"

definition cabin_loo_rates :: "bool \<Rightarrow> passenger list \<Rightarrow> py_error + rat option list" where
  "cabin_loo_rates simplified tbl = collect (map (cabin_rate simplified tbl) tbl)"




subsection \<open>FamilyPredictor: the rates\<close>

text \<open>
  Lines 503 to 521: the cell of \<open>FamilyRate\<close> the loop leaves for a row \<open>p\<close> whose
  \<open>Family\<close> cell is \<open>fam\<close>. The test of line 503 compares with NaN and never holds.
\<close>

definition family_rate ::
  "bool \<Rightarrow> bool \<Rightarrow> passenger list \<Rightarrow> nat option list \<Rightarrow> passenger \<Rightarrow> nat option \<Rightarrow> rat option" where
  "family_rate simplified fill_if_not_any_survived tbl col p fam =
     (let pid = PassengerId p
      in if length (filter (\<lambda>(q, v). cell_eq v fam) (zip tbl col)) = 1 then None
         else let others = map (Survived \<circ> fst)
                             (filter (\<lambda>(q, v). cell_eq v fam \<and> PassengerId q \<noteq> pid) (zip tbl col))
              in if simplified then thresholded fill_if_not_any_survived others
                 else col_mean others)"

definition family_loo_rates :: "bool \<Rightarrow> bool \<Rightarrow> passenger list \<Rightarrow> nat option list \<Rightarrow> rat option list" where
  "family_loo_rates simplified fill_if_not_any_survived tbl col =
     map (\<lambda>(p, fam). family_rate simplified fill_if_not_any_survived tbl col p fam) (zip tbl col)"



record predictor =
  filler :: "series option"
  simplified :: bool
  use_fare :: bool
  fill_if_not_any_survived :: bool

text \<open>Lines 500 to 521: the grouping, then the rates the loop over the rows leaves.\<close>

definition family_pre_rates :: "predictor \<Rightarrow> passenger list \<Rightarrow> py_error + rat option list" where
  "family_pre_rates cfg tbl =
     (case fill_family_ids (use_fare cfg) tbl of
        Inl e \<Rightarrow> Inl e
      | Inr st \<Rightarrow>
          Inr (family_loo_rates (simplified cfg) (fill_if_not_any_survived cfg) tbl (Family st)))"



section \<open>Properties of tables and columns\<close>

text \<open>The \<open>Sex\<close> column as the constructor's docstring describes it.\<close>

definition sex_strings :: "passenger list \<Rightarrow> bool" where
  "sex_strings tbl = list_all (\<lambda>p. Sex p = Str ''male'' \<or> Sex p = Str ''female'') tbl"

text \<open>A row with its own outcome forgotten; the grouping reads nothing else of a row.\<close>

definition forget_outcome :: "passenger \<Rightarrow> passenger" where
  "forget_outcome p = p\<lparr>Survived := None\<rparr>"





section \<open>Invariants of the grouping\<close>

text \<open>The number of rows whose \<open>Family\<close> cell is \<open>k\<close>.\<close>

definition count_of :: "nat option list \<Rightarrow> nat \<Rightarrow> nat" where
  "count_of col k = length (filter (\<lambda>v. v = Some k) col)"

text \<open>Every group's \<open>Id\<close> is its index label, as \<open>_new_family\<close> sets it.\<close>

definition wf_ids :: "family list \<Rightarrow> bool" where
  "wf_ids fams = (map fId fams = [0..<length fams])"

text \<open>The \<open>Id\<close> of the first group whose \<open>Lastname\<close> is the cell \<open>s\<close>, if there is one.\<close>

definition first_match :: "family list \<Rightarrow> string option \<Rightarrow> nat option" where
  "first_match fams s =
     (case filter (\<lambda>g. cell_eq (Some (fLastname g)) s) fams of [] \<Rightarrow> None | h # _ \<Rightarrow> Some (fId h))"

text \<open>The change line 395 makes to a cell of \<open>Family\<close>.\<close>

definition relabel :: "nat \<Rightarrow> nat \<Rightarrow> nat option \<Rightarrow> nat option" where
  "relabel f g v = (if v = Some f then Some g else v)"

text \<open>A group the merge pass has not visited yet: its \<open>Size\<close> is the number of its rows, at least one.\<close>

definition pending :: "grouping \<Rightarrow> nat \<Rightarrow> bool" where
  "pending st k = (Size (families st ! k) = count_of (Family st) k \<and> 1 \<le> Size (families st ! k))"

text \<open>The state after the rows before \<open>n\<close> have been given their group by the first loop.\<close>

definition rows_inv :: "passenger list \<Rightarrow> nat \<Rightarrow> grouping \<Rightarrow> bool" where
  "rows_inv tbl n st =
     (length (Family st) = length tbl \<and> wf_ids (families st) \<and>
      (\<forall>k<length (families st). pending st k) \<and>
      (\<forall>i<length tbl. \<forall>k. Family st ! i = Some k \<longrightarrow> k < length (families st)) \<and>
      (\<forall>i<length tbl. n \<le> i \<longrightarrow> Family st ! i = None) \<and>
      (\<forall>i<n. (Family st ! i = None) = (SibSp (tbl ! i) = 0 \<and> Parch (tbl ! i) = 0)))"

text \<open>
  A group the merge pass has visited: its \<open>Size\<close> is at most the number of its rows, and
  while its \<open>Size\<close> is at most one, the first group named by the \<open>SecondaryLastname\<close> of
  any of its rows, if there is one, is the group itself.
\<close>

definition settled :: "passenger list \<Rightarrow> grouping \<Rightarrow> nat \<Rightarrow> bool" where
  "settled tbl st k =
     (Size (families st ! k) \<le> count_of (Family st) k \<and>
      (Size (families st ! k) \<le> 1 \<longrightarrow>
         (\<forall>p\<in>set (members tbl (Family st) k).
            first_match (families st) (SecondaryLastname p) = None \<or>
            first_match (families st) (SecondaryLastname p) = Some k)))"

text \<open>The state of the merge pass when the groups before \<open>n\<close> have been visited.\<close>

definition merge_inv :: "passenger list \<Rightarrow> nat \<Rightarrow> grouping \<Rightarrow> bool" where
  "merge_inv tbl n st =
     (length (Family st) = length tbl \<and> wf_ids (families st) \<and>
      (\<forall>k<length (families st). if k < n then settled tbl st k else pending st k))"

text \<open>
  A group whose rows the rest of the merge pass cannot move, when the groups before \<open>n\<close>
  have been visited: it has been visited, or its \<open>Size\<close> is at least two.
\<close>

definition safe :: "nat \<Rightarrow> grouping \<Rightarrow> nat \<Rightarrow> bool" where
  "safe n st g = (g < n \<or> 2 \<le> Size (families st ! g))"

section \<open>Example rows\<close>

text \<open>A row of class 3 embarked at \<open>S\<close>, and a group of such rows.\<close>

definition row :: "int \<Rightarrow> string \<Rightarrow> string option \<Rightarrow> int \<Rightarrow> passenger" where
  "row pid l s sib = \<lparr>PassengerId = pid, Pclass = 3, Sex = Str ''male'', Embarked = ''S'',
     Lastname = l, SecondaryLastname = s, Fare = None, Ticket = ''A1'', Cabin = None,
     SibSp = sib, Parch = 0, Survived = None\<rparr>"

definition fam_row :: "string \<Rightarrow> nat \<Rightarrow> nat \<Rightarrow> family" where
  "fam_row l i n = \<lparr>fPclass = 3, fEmbarked = ''S'', fLastname = l, fId = i, Size = n\<rparr>"

text \<open>Two rows of one family, on one ticket.\<close>

definition pair_rows :: "passenger list" where
  "pair_rows = [(row 1 ''Smith'' None 1)\<lparr>Survived := Some 1\<rparr>, (row 2 ''Smith'' None 1)\<lparr>Survived := Some 0\<rparr>]"

text \<open>Three rows of one family, in one cabin and on one ticket.\<close>

definition cabin_rows :: "passenger list" where
  "cabin_rows = [(row 1 ''Smith'' None 1)\<lparr>Cabin := Some ''C85'', Survived := Some 1\<rparr>,
                 (row 2 ''Smith'' None 1)\<lparr>Cabin := Some ''C85'', Survived := Some 0\<rparr>,
                 (row 3 ''Smith'' None 1)\<lparr>Cabin := Some ''C85''\<rparr>]"


text \<open>Three rows of one name, the second without a fare.\<close>

definition fare_rows :: "passenger list" where
  "fare_rows = [(row 1 ''Smith'' None 0)\<lparr>Fare := Some 7\<rparr>, row 2 ''Smith'' None 1,
                (row 3 ''Smith'' None 0)\<lparr>Fare := Some 7\<rparr>]"

text \<open>Three singletons that name each other by their \<open>SecondaryLastname\<close>, and a lone passenger.\<close>

definition merge_rows :: "passenger list" where
  "merge_rows = [row 1 ''A'' (Some ''B'') 1, row 2 ''B'' None 1, row 3 ''C'' (Some ''A'') 1,
                 row 4 ''D'' None 0]"

text \<open>A row whose \<open>SecondaryLastname\<close> is its own \<open>Lastname\<close>.\<close>

definition self_rows :: "passenger list" where
  "self_rows = [row 1 ''A'' (Some ''A'') 1]"


definition continuous :: predictor where
  "continuous = \<lparr>filler = None, simplified = False, use_fare = False, fill_if_not_any_survived = False\<rparr>"





section \<open>The choice of a group for a row\<close>

text \<open>
  C1. With one group \<open>Smith\<close> of the row's class and port, a row \<open>Jones\<close> whose
  \<open>SecondaryLastname\<close> is \<open>Smith\<close> should get the id 0 of that group. The code tests
  \<open>len(exact)\<close> a second time where the selection \<open>secondary\<close> was meant, and makes the
  new group 1.
\<close>

theorem find_family_secondary_ignored:
  "find_family (row 2 ''Jones'' (Some ''Smith'') 1) [fam_row ''Smith'' 0 1]
     = (1, [fam_row ''Smith'' 0 1, fam_row ''Jones'' 1 0])"
  by (simp add: find_family_def new_family_def row_def fam_row_def eq_nan_def cell_eq_def)

section \<open>Columns, dictionaries and the fallback by class\<close>

lemma set_unique [simp]: "set (unique xs) = set xs"
  by (simp add: unique_def)

lemma length_fill_class [simp]: "length (fill_class tbl c rates) = min (length tbl) (length rates)"
  by (simp add: fill_class_def)

lemma fillna_idem: "fillna (fillna r v) v = fillna r v"
  by (simp add: fillna_def split: option.splits)

lemma fill_class_nth:
  "length rates = length tbl \<Longrightarrow> i < length tbl \<Longrightarrow>
   fill_class tbl c rates ! i
     = (if Pclass (tbl ! i) = c then fillna (rates ! i) (class_mean tbl c) else rates ! i)"
  by (simp add: fill_class_def)

lemma fold_fill_class_length:
  "length rates = length tbl \<Longrightarrow> length (fold (fill_class tbl) cs rates) = length tbl"
  by (induction cs arbitrary: rates) simp_all

lemma fold_fill_class_nth:
  "length rates = length tbl \<Longrightarrow> i < length tbl \<Longrightarrow>
   fold (fill_class tbl) cs rates ! i
     = (if Pclass (tbl ! i) \<in> set cs then fillna (rates ! i) (class_mean tbl (Pclass (tbl ! i)))
        else rates ! i)"
proof (induction cs arbitrary: rates)
  case Nil
  show ?case by simp
next
  case (Cons c cs)
  have len: "length (fill_class tbl c rates) = length tbl" using Cons.prems by simp
  show ?case
    using Cons.IH [OF len Cons.prems(2)] Cons.prems
    by (simp add: fill_class_nth fillna_idem)
qed

lemma ticket_fallback_continuous_nth:
  "length rates = length tbl \<Longrightarrow> i < length tbl \<Longrightarrow>
   ticket_fallback False tbl rates ! i = fillna (rates ! i) (class_mean tbl (Pclass (tbl ! i)))"
  by (simp add: ticket_fallback_def fold_fill_class_nth)

lemma ticket_fallback_length:
  "length rates = length tbl \<Longrightarrow> length (ticket_fallback s tbl rates) = length tbl"
  by (simp add: ticket_fallback_def fold_fill_class_length)

lemma lookup_dict_of:
  "lookup (dict_of ks f) k = (if k \<in> set ks then Inr (f k) else Inl KeyError)"
  by (simp add: lookup_def dict_of_def map_of_map_restrict restrict_map_def)

lemma dict_of_eq_None: "dict_of ks f k = None \<longleftrightarrow> k \<notin> set ks"
  by (simp add: dict_of_def map_of_map_restrict restrict_map_def)

lemma collect_map_Inr:
  "(\<And>x. x \<in> set xs \<Longrightarrow> f x = Inr (g x)) \<Longrightarrow> collect (map f xs) = Inr (map g xs)"
  by (induction xs) simp_all

lemma collect_length: "collect xs = Inr ys \<Longrightarrow> length ys = length xs"
  by (induction xs arbitrary: ys) (auto split: sum.splits)

lemma ticket_rate_continuous:
  "p \<in> set tbl \<Longrightarrow>
   ticket_rate False b tbl p
     = Inr (counted_rate (length (filter (\<lambda>q. Ticket q = Ticket p \<and> Survived q = Some 1) tbl))
                         (length (filter (\<lambda>q. Ticket q = Ticket p \<and> Survived q = Some 0) tbl))
                         (Survived p))"
  by (simp add: ticket_rate_def ticket_surv_def ticket_died_def lookup_dict_of Let_def)

lemma ticket_count_lookup:
  "p \<in> set tbl \<Longrightarrow>
   lookup (ticket_counts tbl) (Ticket p) = Inr (length (filter (\<lambda>q. Ticket q = Ticket p) tbl))"
  by (simp add: ticket_counts_def lookup_dict_of)

lemma ticket_fallback_continuous:
  assumes "length rates = length tbl"
  shows "ticket_fallback False tbl rates = map (\<lambda>(p, r). fillna r (class_mean tbl (Pclass p))) (zip tbl rates)"
proof (rule nth_equalityI)
  show "length (ticket_fallback False tbl rates) = length (map (\<lambda>(p, r). fillna r (class_mean tbl (Pclass p))) (zip tbl rates))"
    using assms by (simp add: ticket_fallback_length)
next
  fix i assume "i < length (ticket_fallback False tbl rates)"
  then have "i < length tbl" using assms by (simp add: ticket_fallback_length)
  then show "ticket_fallback False tbl rates ! i = map (\<lambda>(p, r). fillna r (class_mean tbl (Pclass p))) (zip tbl rates) ! i"
    using assms by (simp add: ticket_fallback_continuous_nth)
qed

text \<open>
  C6. Three rows with the same \<open>Ticket\<close> and \<open>Survived\<close> 1, 0 and missing, whatever their
  other cells: in continuous mode \<open>TicketRate\<close> is 0 for the first row, 1 for the second and
  0.5 for the third, and the fallback finds no cell to fill.
\<close>

theorem ticket_scenario:
  "fill_ticket_rates False b
     [r1\<lparr>Ticket := t, Survived := Some 1\<rparr>, r2\<lparr>Ticket := t, Survived := Some 0\<rparr>,
      r3\<lparr>Ticket := t, Survived := None\<rparr>]
   = Inr \<lparr>TicketCount = [3, 3, 3], TicketRate = [Some 0, Some 1, Some (1 / 2)]\<rparr>"
  (is "fill_ticket_rates False b ?tbl = _")
proof -
  have "collect (map (\<lambda>p. lookup (ticket_counts ?tbl) (Ticket p)) ?tbl)
          = Inr (map (\<lambda>p. length (filter (\<lambda>q. Ticket q = Ticket p) ?tbl)) ?tbl)"
    by (rule collect_map_Inr) (rule ticket_count_lookup)
  then have counts: "collect (map (\<lambda>p. lookup (ticket_counts ?tbl) (Ticket p)) ?tbl) = Inr [3, 3, 3]"
    by simp
  have "ticket_loo_rates False b ?tbl
          = Inr (map (\<lambda>p. counted_rate (length (filter (\<lambda>q. Ticket q = Ticket p \<and> Survived q = Some 1) ?tbl))
                         (length (filter (\<lambda>q. Ticket q = Ticket p \<and> Survived q = Some 0) ?tbl))
                         (Survived p)) ?tbl)"
    unfolding ticket_loo_rates_def by (rule collect_map_Inr) (rule ticket_rate_continuous)
  then have rates: "ticket_loo_rates False b ?tbl = Inr [Some 0, Some 1, Some (1 / 2)]"
    by (simp add: counted_rate_def)
  have fb: "ticket_fallback False ?tbl [Some 0, Some 1, Some (1 / 2)] = [Some 0, Some 1, Some (1 / 2)]"
    by (subst ticket_fallback_continuous) (simp_all add: fillna_def)
  show ?thesis
    unfolding fill_ticket_rates_def counts rates by (simp add: fb)
qed

section \<open>The fallback passes of \<open>fill_family_rates\<close>\<close>

lemma unalignable_iff:
  "unalignable fl n = (\<exists>k. n \<le> k \<and> has_label fl k)"
  by (auto simp: unalignable_def list_ex_iff has_label_def)









section \<open>The sibling branch of the merge pass\<close>

lemma filter_Cons_mem: "filter P xs = y # ys \<Longrightarrow> y \<in> set xs \<and> P y"
proof -
  assume h: "filter P xs = y # ys"
  have "y \<in> set (filter P xs)" unfolding h by simp
  then show ?thesis by simp
qed

lemma sibling_gate_strings:
  assumes "sex_strings tbl"
  shows "sibling_gate tbl pid = (if pid \<in> PassengerId ` set tbl then Inr False else Inl IndexError)"
proof (cases "filter (\<lambda>p. PassengerId p = pid) tbl")
  case Nil
  then have "pid \<notin> PassengerId ` set tbl"
    by (auto simp: filter_empty_conv)
  with Nil show ?thesis by (simp add: sibling_gate_def)
next
  case (Cons p ps)
  then have p: "p \<in> set tbl" "PassengerId p = pid"
    using filter_Cons_mem [OF Cons] by simp_all
  then have "Sex p \<noteq> Num 1"
    using assms by (auto simp: sex_strings_def list_all_iff)
  with Cons p show ?thesis by (auto simp: sibling_gate_def)
qed

lemma sibling_branch_strings:
  assumes "sex_strings tbl"
  shows "sibling_branch tbl fid pid second_name pclass emb st
           = (if pid \<in> PassengerId ` set tbl then Inr st else Inl IndexError)"
  by (simp add: sibling_branch_def sibling_gate_strings [OF assms])

text \<open>
  C2. When every cell of \<open>Sex\<close> is the string \<open>male\<close> or \<open>female\<close>, the tests of lines 400
  to 403 never let a group through to the sibling search: the test \<open>Sex != 1\<close> holds of
  every row. The branch leaves the \<open>Family\<close> column and every \<open>Size\<close> as they are, for the
  \<open>PassengerId\<close> of any row of the table.
\<close>

theorem sibling_branch_inert:
  assumes "sex_strings tbl"
  shows "sibling_gate tbl pid \<noteq> Inr True \<and>
         (\<forall>st1. sibling_branch tbl fid pid second_name pclass emb st = Inr st1 \<longrightarrow> st1 = st) \<and>
         (pid \<in> PassengerId ` set tbl \<longrightarrow>
            sibling_branch tbl fid pid second_name pclass emb st = Inr st)"
  by (simp add: sibling_branch_strings [OF assms] sibling_gate_strings [OF assms])

theorem sibling_branch_inert_witness:
  "sex_strings pair_rows \<and> sibling_gate pair_rows 1 = Inr False \<and>
   sibling_branch pair_rows 0 1 (Some ''Smith'') 3 ''S'' (group_rows pair_rows) = Inr (group_rows pair_rows)"
proof -
  have s: "sex_strings pair_rows" by code_simp
  have m: "(1::int) \<in> PassengerId ` set pair_rows" by code_simp
  have g: "sibling_gate pair_rows 1 = Inr False" by code_simp
  from sibling_branch_inert [OF s, of 1 0 "Some ''Smith''" 3 "''S''" "group_rows pair_rows"] s m g
  show ?thesis by simp
qed

section \<open>The fare mode of the grouping\<close>

lemma cell_eq_None_left [simp]: "cell_eq None v = False"
  by (simp add: cell_eq_def split: option.splits)

lemma fare_step_keeps:
  assumes "length (fst s) = length tbl"
    and "\<forall>j<length tbl. Fare (tbl ! j) = None \<longrightarrow> fst s ! j = None"
  shows "length (fst (fare_step tbl i s)) = length tbl \<and>
         (\<forall>j<length tbl. Fare (tbl ! j) = None \<longrightarrow> fst (fare_step tbl i s) ! j = None)"
proof (cases s)
  case (Pair col fid)
  with assms show ?thesis
    by (simp add: fare_step_def Let_def)
qed

lemma fold_fare_step_keeps:
  assumes "length (fst s) = length tbl"
    and "\<forall>j<length tbl. Fare (tbl ! j) = None \<longrightarrow> fst s ! j = None"
  shows "length (fst (fold (fare_step tbl) ns s)) = length tbl \<and>
         (\<forall>j<length tbl. Fare (tbl ! j) = None \<longrightarrow> fst (fold (fare_step tbl) ns s) ! j = None)"
  using assms
proof (induction ns arbitrary: s)
  case Nil
  then show ?case by simp
next
  case (Cons n ns)
  from fare_step_keeps [OF Cons.prems] show ?case
    by (simp add: Cons.IH)
qed

lemma fare_groups_length: "length (fare_groups tbl) = length tbl"
  using fold_fare_step_keeps [of "(replicate (length tbl) None, 0)" tbl "[0..<length tbl]"]
  by (simp add: fare_groups_def)

text \<open>
  C10. In the fare mode every row whose \<open>Fare\<close> is missing ends with a missing \<open>Family\<close>:
  the mask \<open>Fare == f\<close> selects no row with a missing fare, whatever \<open>f\<close> is, and the mode
  does not look at \<open>SibSp\<close> and \<open>Parch\<close>.
\<close>

theorem fare_mode_missing_fare:
  assumes "i < length tbl" and "Fare (tbl ! i) = None"
  shows "\<exists>st. fill_family_ids True tbl = Inr st \<and> length (Family st) = length tbl \<and>
              Family st ! i = None"
  using fold_fare_step_keeps [of "(replicate (length tbl) None, 0)" tbl "[0..<length tbl]"] assms
  by (simp add: fill_family_ids_def fare_groups_def)

theorem fare_mode_missing_fare_witness:
  "Fare (fare_rows ! 1) = None \<and> SibSp (fare_rows ! 1) + Parch (fare_rows ! 1) > 0 \<and>
   (\<exists>st. fill_family_ids True fare_rows = Inr st \<and> length (Family st) = 3 \<and> Family st ! 1 = None)"
proof -
  have l: "(1::nat) < length fare_rows" by code_simp
  have n: "length fare_rows = 3" by code_simp
  have f: "Fare (fare_rows ! 1) = None" by code_simp
  have s: "SibSp (fare_rows ! 1) + Parch (fare_rows ! 1) > 0" by code_simp
  from fare_mode_missing_fare [OF l f] f s show ?thesis unfolding n by blast
qed

section \<open>The grouping does not read \<open>Survived\<close>\<close>

lemma forget_fields [simp]:
  "PassengerId (forget_outcome p) = PassengerId p" "Pclass (forget_outcome p) = Pclass p"
  "Sex (forget_outcome p) = Sex p" "Embarked (forget_outcome p) = Embarked p"
  "Lastname (forget_outcome p) = Lastname p"
  "SecondaryLastname (forget_outcome p) = SecondaryLastname p"
  "Fare (forget_outcome p) = Fare p" "SibSp (forget_outcome p) = SibSp p"
  "Parch (forget_outcome p) = Parch p"
  by (simp_all add: forget_outcome_def)

lemma find_family_forget [simp]: "find_family (forget_outcome p) fams = find_family p fams"
  by (simp add: find_family_def new_family_def forget_outcome_def Let_def)

lemma assign_family_forget:
  "i < length tbl \<Longrightarrow> assign_family (map forget_outcome tbl) i st = assign_family tbl i st"
  by (simp add: assign_family_def Let_def)

lemma group_rows_forget: "group_rows (map forget_outcome tbl) = group_rows tbl"
proof -
  have "fold (assign_family (map forget_outcome tbl)) [0..<length tbl] (initial tbl)
          = fold (assign_family tbl) [0..<length tbl] (initial tbl)"
    by (rule List.fold_cong) (simp_all add: assign_family_forget fun_eq_iff)
  then show ?thesis
    by (simp add: group_rows_def initial_def)
qed

lemma zip_forget:
  "zip (map forget_outcome tbl) col = map (\<lambda>(p, v). (forget_outcome p, v)) (zip tbl col)"
  by (simp add: zip_map1)

lemma members_forget: "members (map forget_outcome tbl) col fid = map forget_outcome (members tbl col fid)"
  by (simp add: members_def zip_forget filter_map o_def case_prod_unfold)

lemma absorb_forget: "absorb (map forget_outcome tbl) f fid h st = absorb tbl f fid h st"
  by (simp add: absorb_def members_forget)

lemma sibling_gate_forget: "sibling_gate (map forget_outcome tbl) pid = sibling_gate tbl pid"
proof -
  have "filter (\<lambda>p. PassengerId p = pid) (map forget_outcome tbl)
          = map forget_outcome (filter (\<lambda>p. PassengerId p = pid) tbl)"
    by (simp add: filter_map o_def forget_outcome_def)
  then show ?thesis
    by (simp add: sibling_gate_def forget_outcome_def split: list.splits)
qed

lemma sibling_merge_forget:
  "sibling_merge (map forget_outcome tbl) fid pid sn pc em st = sibling_merge tbl fid pid sn pc em st"
proof -
  let ?P = "\<lambda>(p, v::nat option). cell_eq (SecondaryLastname p) sn \<and> Sex p = Str ''female''
                \<and> Pclass p = pc \<and> Embarked p = em \<and> PassengerId p \<noteq> pid"
  have "filter ?P (zip (map forget_outcome tbl) (Family st))
          = map (\<lambda>(p, v). (forget_outcome p, v)) (filter ?P (zip tbl (Family st)))"
    by (simp add: zip_forget filter_map o_def case_prod_unfold forget_outcome_def)
  then show ?thesis
    by (simp add: sibling_merge_def Let_def split: list.splits prod.splits)
qed

lemma sibling_branch_forget:
  "sibling_branch (map forget_outcome tbl) fid pid sn pc em st = sibling_branch tbl fid pid sn pc em st"
  by (simp add: sibling_branch_def sibling_gate_forget sibling_merge_forget cong: sum.case_cong bool.case_cong)

lemma merge_visit_forget: "merge_visit (map forget_outcome tbl) f st = merge_visit tbl f st"
  by (cases "members tbl (Family st) (fId (families st ! f))")
     (simp_all add: merge_visit_def members_forget absorb_forget sibling_branch_forget Let_def
        forget_outcome_def cong: list.case_cong)

lemma merge_loop_forget: "merge_loop (map forget_outcome tbl) fs st = merge_loop tbl fs st"
  by (induction fs arbitrary: st) (simp_all add: merge_visit_forget cong: sum.case_cong)

lemma fare_step_forget:
  "i < length tbl \<Longrightarrow> fare_step (map forget_outcome tbl) i s = fare_step tbl i s"
  by (cases s) (simp add: fare_step_def zip_forget o_def case_prod_unfold Let_def forget_outcome_def)

lemma fare_groups_forget: "fare_groups (map forget_outcome tbl) = fare_groups tbl"
proof -
  have "fold (fare_step (map forget_outcome tbl)) [0..<length tbl] (replicate (length tbl) None, 0)
          = fold (fare_step tbl) [0..<length tbl] (replicate (length tbl) None, 0)"
    by (rule List.fold_cong) (simp_all add: fare_step_forget fun_eq_iff)
  then show ?thesis
    by (simp add: fare_groups_def)
qed

lemma fill_family_ids_forget: "fill_family_ids u (map forget_outcome tbl) = fill_family_ids u tbl"
  by (simp add: fill_family_ids_def fare_groups_forget merge_pass_def merge_loop_forget group_rows_forget)

lemma forget_update:
  "map forget_outcome (tbl[i := (tbl ! i)\<lparr>Survived := v\<rparr>]) = map forget_outcome tbl"
proof (cases "i < length tbl")
  case True
  have "forget_outcome ((tbl ! i)\<lparr>Survived := v\<rparr>) = map forget_outcome tbl ! i"
    using True by (simp add: forget_outcome_def)
  then show ?thesis
    by (simp add: map_update)
next
  case False
  then show ?thesis by (simp add: not_less list_update_beyond)
qed

lemma fill_family_ids_own_outcome:
  "fill_family_ids u (tbl[i := (tbl ! i)\<lparr>Survived := v\<rparr>]) = fill_family_ids u tbl"
  by (metis fill_family_ids_forget forget_update)

section \<open>What a round of the merge pass can return\<close>

lemma sibling_merge_Inr: "sibling_merge tbl fid pid sn pc em st = Inr st1 \<Longrightarrow> st1 = st"
  by (simp add: sibling_merge_def Let_def split: list.splits prod.splits)

lemma sibling_branch_Inr: "sibling_branch tbl fid pid sn pc em st = Inr st1 \<Longrightarrow> st1 = st"
  by (auto simp: sibling_branch_def split: sum.splits bool.splits dest: sibling_merge_Inr)

lemma merge_visit_Inr:
  assumes "merge_visit tbl f st = Inr st1"
  shows "st1 = st \<or>
         (\<exists>m ms h hs. Size (families st ! f) = 1 \<and>
            members tbl (Family st) (fId (families st ! f)) = m # ms \<and>
            filter (\<lambda>g. cell_eq (Some (fLastname g)) (SecondaryLastname m)) (families st) = h # hs \<and>
            st1 = absorb tbl f (fId (families st ! f)) h st)"
proof (cases "Size (families st ! f) = 1")
  case False
  with assms show ?thesis by (simp add: merge_visit_def)
next
  case True
  show ?thesis
  proof (cases "members tbl (Family st) (fId (families st ! f))")
    case Nil
    with assms True show ?thesis by (simp add: merge_visit_def)
  next
    case (Cons m ms)
    show ?thesis
    proof (cases "filter (\<lambda>g. cell_eq (Some (fLastname g)) (SecondaryLastname m)) (families st)")
      case Nil
      with assms True Cons show ?thesis
        by (auto simp: merge_visit_def eq_nan_def Let_def dest: sibling_branch_Inr)
    next
      case (Cons h hs)
      with assms True \<open>members tbl (Family st) (fId (families st ! f)) = m # ms\<close> show ?thesis
        by (auto simp: merge_visit_def eq_nan_def Let_def dest: sibling_branch_Inr split: if_splits)
    qed
  qed
qed

lemma absorb_Family:
  "Family (absorb tbl f fid h st) = map (\<lambda>v. if v = Some fid then Some (fId h) else v) (Family st)"
  by (simp add: absorb_def Let_def)

lemma absorb_length_families [simp]: "length (families (absorb tbl f fid h st)) = length (families st)"
  by (simp add: absorb_def Let_def)

lemma merge_visit_length:
  "merge_visit tbl f st = Inr st1 \<Longrightarrow>
   length (Family st1) = length (Family st) \<and> length (families st1) = length (families st)"
  by (auto dest!: merge_visit_Inr simp: absorb_Family)

lemma merge_loop_length:
  "merge_loop tbl fs st = Inr st1 \<Longrightarrow>
   length (Family st1) = length (Family st) \<and> length (families st1) = length (families st)"
proof (induction fs arbitrary: st)
  case Nil
  then show ?case by simp
next
  case (Cons f fs)
  then obtain st2 where v: "merge_visit tbl f st = Inr st2" and l: "merge_loop tbl fs st2 = Inr st1"
    by (auto split: sum.splits)
  from Cons.IH [OF l] merge_visit_length [OF v] show ?case by simp
qed

lemma assign_family_length [simp]: "length (Family (assign_family tbl i st)) = length (Family st)"
  by (simp add: assign_family_def Let_def split: prod.splits)

lemma fold_assign_family_length [simp]:
  "length (Family (fold (assign_family tbl) ns st)) = length (Family st)"
  by (induction ns arbitrary: st) simp_all

lemma group_rows_length [simp]: "length (Family (group_rows tbl)) = length tbl"
  by (simp add: group_rows_def initial_def)

lemma fill_family_ids_length:
  "fill_family_ids u tbl = Inr st \<Longrightarrow> length (Family st) = length tbl"
  by (auto simp: fill_family_ids_def fare_groups_length merge_pass_def
           split: if_splits dest!: merge_loop_length)

section \<open>Leave-one-out: the row's own outcome\<close>

lemma filter_update_excluded:
  assumes "i < length xs" and "\<not> P (xs ! i)" and "\<not> P y"
  shows "filter P (xs[i := y]) = filter P xs"
proof -
  have "filter P (xs[i := y]) = filter P (take i xs) @ filter P (drop (Suc i) xs)"
    using assms by (simp add: upd_conv_take_nth_drop)
  also have "\<dots> = filter P (take i xs @ xs ! i # drop (Suc i) xs)"
    using assms by simp
  also have "\<dots> = filter P xs"
    using assms(1) by (simp add: id_take_nth_drop [symmetric])
  finally show ?thesis .
qed

lemma count_update:
  assumes "i < length xs"
  shows "int (length (filter P (xs[i := y]))) - (if P y then 1 else 0)
           = int (length (filter P xs)) - (if P (xs ! i) then 1 else 0)"
proof -
  have a: "length (filter P (xs[i := y]))
             = length (filter P (take i xs)) + (if P y then 1 else 0) + length (filter P (drop (Suc i) xs))"
    using assms by (simp add: upd_conv_take_nth_drop)
  have "filter P xs = filter P (take i xs @ xs ! i # drop (Suc i) xs)"
    using assms by (simp add: id_take_nth_drop [symmetric])
  then have b: "length (filter P xs)
             = length (filter P (take i xs)) + (if P (xs ! i) then 1 else 0) + length (filter P (drop (Suc i) xs))"
    by simp
  show ?thesis unfolding a b by simp
qed

lemma counted_rate_own:
  assumes "int s1 - (if v = Some 1 then 1 else 0) = int s0 - (if w = Some 1 then 1 else 0)"
    and "int d1 - (if v = Some 0 then 1 else 0) = int d0 - (if w = Some 0 then 1 else 0)"
  shows "counted_rate s1 d1 v = counted_rate s0 d0 w"
  using assms by (simp add: counted_rate_def Let_def)

lemma collect_map_total:
  assumes "\<forall>x\<in>set xs. \<exists>v. f x = Inr v"
  shows "\<exists>vs. collect (map f xs) = Inr vs \<and> length vs = length xs \<and>
              (\<forall>i<length xs. f (xs ! i) = Inr (vs ! i))"
proof -
  have e: "f x = Inr (projr (f x))" if "x \<in> set xs" for x
    using assms that by force
  have "collect (map f xs) = Inr (map (\<lambda>x. projr (f x)) xs)"
    by (rule collect_map_Inr) (rule e)
  moreover have "\<forall>i<length xs. f (xs ! i) = Inr (map (\<lambda>x. projr (f x)) xs ! i)"
    using e by simp
  ultimately show ?thesis by simp
qed

lemma ticket_rate_total: "p \<in> set tbl \<Longrightarrow> \<exists>v. ticket_rate s a tbl p = Inr v"
  by (cases s) (simp_all add: ticket_rate_continuous, simp add: ticket_rate_def)

lemma ticket_loo_rates_total:
  "\<exists>rs. ticket_loo_rates s a tbl = Inr rs \<and> length rs = length tbl \<and>
         (\<forall>i<length tbl. ticket_rate s a tbl (tbl ! i) = Inr (rs ! i))"
  unfolding ticket_loo_rates_def
  by (rule collect_map_total) (simp add: ticket_rate_total)

lemma ticket_rate_own:
  assumes "i < length tbl"
  shows "ticket_rate s a (tbl[i := (tbl ! i)\<lparr>Survived := v\<rparr>]) ((tbl ! i)\<lparr>Survived := v\<rparr>)
           = ticket_rate s a tbl (tbl ! i)"
proof (cases s)
  case True
  have "filter (\<lambda>q. Ticket q = Ticket (tbl ! i) \<and> PassengerId q \<noteq> PassengerId (tbl ! i))
               (tbl[i := (tbl ! i)\<lparr>Survived := v\<rparr>])
          = filter (\<lambda>q. Ticket q = Ticket (tbl ! i) \<and> PassengerId q \<noteq> PassengerId (tbl ! i)) tbl"
    using assms by (intro filter_update_excluded) simp_all
  with True show ?thesis by (simp add: ticket_rate_def)
next
  case False
  let ?p = "(tbl ! i)\<lparr>Survived := v\<rparr>" and ?t = "Ticket (tbl ! i)"
  have m: "?p \<in> set (tbl[i := ?p])" "tbl ! i \<in> set tbl"
    using assms by (simp_all add: set_update_memI)
  have "counted_rate (length (filter (\<lambda>q. Ticket q = ?t \<and> Survived q = Some 1) (tbl[i := ?p])))
                     (length (filter (\<lambda>q. Ticket q = ?t \<and> Survived q = Some 0) (tbl[i := ?p]))) v
          = counted_rate (length (filter (\<lambda>q. Ticket q = ?t \<and> Survived q = Some 1) tbl))
                         (length (filter (\<lambda>q. Ticket q = ?t \<and> Survived q = Some 0) tbl))
                         (Survived (tbl ! i))"
    using count_update [OF assms, of "\<lambda>q. Ticket q = ?t \<and> Survived q = Some 1" ?p]
          count_update [OF assms, of "\<lambda>q. Ticket q = ?t \<and> Survived q = Some 0" ?p]
    by (intro counted_rate_own) simp_all
  with False show ?thesis
    by (simp add: ticket_rate_continuous [OF m(1)] ticket_rate_continuous [OF m(2)])
qed

lemma cabin_key: "p \<in> set tbl \<Longrightarrow> Cabin p = Some c \<Longrightarrow> c \<in> set (List.map_filter Cabin tbl)"
  by (force simp: List.map_filter_def)

lemma cabin_rate_Inr:
  assumes "p \<in> set tbl"
  shows "cabin_rate s tbl p
           = Inr (case Cabin p of
                    None \<Rightarrow> None
                  | Some c \<Rightarrow>
                      if s then thresholded False
                                  (map Survived (filter (\<lambda>q. Cabin q = Some c \<and> PassengerId q \<noteq> PassengerId p) tbl))
                      else counted_rate (length (filter (\<lambda>q. Cabin q = Some c \<and> Survived q = Some 1) tbl))
                                        (length (filter (\<lambda>q. Cabin q = Some c \<and> Survived q = Some 0) tbl))
                                        (Survived p))"
proof (cases "Cabin p")
  case None
  then show ?thesis by (simp add: cabin_rate_def)
next
  case (Some c)
  from cabin_key [OF assms Some] Some show ?thesis
    by (simp add: cabin_rate_def cabin_counts_def cabin_surv_def cabin_died_def dict_of_eq_None
                  lookup_dict_of Let_def)
qed

lemma cabin_loo_rates_total:
  "\<exists>rs. cabin_loo_rates s tbl = Inr rs \<and> length rs = length tbl \<and>
         (\<forall>i<length tbl. cabin_rate s tbl (tbl ! i) = Inr (rs ! i))"
  unfolding cabin_loo_rates_def
  by (rule collect_map_total) (simp add: cabin_rate_Inr)

lemma cabin_rate_own:
  assumes "i < length tbl"
  shows "cabin_rate s (tbl[i := (tbl ! i)\<lparr>Survived := v\<rparr>]) ((tbl ! i)\<lparr>Survived := v\<rparr>)
           = cabin_rate s tbl (tbl ! i)"
proof (cases "Cabin (tbl ! i)")
  case None
  then show ?thesis by (simp add: cabin_rate_def)
next
  case (Some c)
  let ?p = "(tbl ! i)\<lparr>Survived := v\<rparr>"
  have m: "?p \<in> set (tbl[i := ?p])" "tbl ! i \<in> set tbl"
    using assms by (simp_all add: set_update_memI)
  have t: "filter (\<lambda>q. Cabin q = Some c \<and> PassengerId q \<noteq> PassengerId (tbl ! i)) (tbl[i := ?p])
          = filter (\<lambda>q. Cabin q = Some c \<and> PassengerId q \<noteq> PassengerId (tbl ! i)) tbl"
    using assms by (intro filter_update_excluded) simp_all
  have c: "counted_rate (length (filter (\<lambda>q. Cabin q = Some c \<and> Survived q = Some 1) (tbl[i := ?p])))
                     (length (filter (\<lambda>q. Cabin q = Some c \<and> Survived q = Some 0) (tbl[i := ?p]))) v
          = counted_rate (length (filter (\<lambda>q. Cabin q = Some c \<and> Survived q = Some 1) tbl))
                         (length (filter (\<lambda>q. Cabin q = Some c \<and> Survived q = Some 0) tbl))
                         (Survived (tbl ! i))"
    using count_update [OF assms, of "\<lambda>q. Cabin q = Some c \<and> Survived q = Some 1" ?p]
          count_update [OF assms, of "\<lambda>q. Cabin q = Some c \<and> Survived q = Some 0" ?p] Some
    by (intro counted_rate_own) simp_all
  show ?thesis
    by (simp add: cabin_rate_Inr [OF m(1)] cabin_rate_Inr [OF m(2)] Some t c)
qed

lemma zip_update_left: "zip (xs[i := x]) ys = (zip xs ys)[i := (x, ys ! i)]"
proof -
  have "zip (xs[i := x]) ys = zip (xs[i := x]) (ys[i := ys ! i])" by simp
  also have "\<dots> = (zip xs ys)[i := (x, ys ! i)]" by (rule zip_update)
  finally show ?thesis .
qed

lemma count_by_cell:
  assumes "length xs = length ys"
  shows "length (filter (\<lambda>(q, v). Q v) (zip xs ys)) = length (filter Q ys)"
proof -
  have "length (filter Q (map snd (zip xs ys))) = length (filter (\<lambda>(q, v). Q v) (zip xs ys))"
    by (simp add: filter_map o_def case_prod_unfold)
  then show ?thesis using assms by simp
qed

lemma family_rate_own:
  assumes "i < length tbl" and "length col = length tbl"
  shows "family_rate s a (tbl[i := (tbl ! i)\<lparr>Survived := v\<rparr>]) col ((tbl ! i)\<lparr>Survived := v\<rparr>) k
           = family_rate s a tbl col (tbl ! i) k"
proof -
  let ?p = "(tbl ! i)\<lparr>Survived := v\<rparr>"
  let ?P = "\<lambda>(q, v). cell_eq v k \<and> PassengerId q \<noteq> PassengerId (tbl ! i)"
  have n: "length (filter (\<lambda>(q, v). cell_eq v k) (zip (tbl[i := ?p]) col))
             = length (filter (\<lambda>(q, v). cell_eq v k) (zip tbl col))"
    using assms by (simp add: count_by_cell)
  have "filter ?P ((zip tbl col)[i := (?p, col ! i)]) = filter ?P (zip tbl col)"
    using assms by (intro filter_update_excluded) simp_all
  then have o: "filter ?P (zip (tbl[i := ?p]) col) = filter ?P (zip tbl col)"
    by (simp add: zip_update_left)
  show ?thesis
    by (simp add: family_rate_def Let_def n o)
qed

lemma family_loo_rates_nth:
  "i < length tbl \<Longrightarrow> length col = length tbl \<Longrightarrow>
   family_loo_rates s a tbl col ! i = family_rate s a tbl col (tbl ! i) (col ! i)"
  by (simp add: family_loo_rates_def)

lemma family_loo_rates_length [simp]:
  "length (family_loo_rates s a tbl col) = min (length tbl) (length col)"
  by (simp add: family_loo_rates_def)

text \<open>
  C3. In every mode of \<open>TicketCounter\<close>, \<open>CabinCounter\<close> and \<open>FamilyPredictor\<close>, the rate a
  row has before the fallback does not change when the row's own \<open>Survived\<close> is replaced by
  any other value \<open>v\<close>: the loops of the three classes return, and return the same cell
  for the row (for \<open>FamilyPredictor\<close>, the grouping fails or returns alike for both
  tables). No assumption on \<open>PassengerId\<close> is needed.
\<close>

theorem leave_one_out_purity:
  assumes "i < length tbl"
  shows "(\<exists>rs rs1. ticket_loo_rates s a tbl = Inr rs \<and>
            ticket_loo_rates s a (tbl[i := (tbl ! i)\<lparr>Survived := v\<rparr>]) = Inr rs1 \<and>
            length rs = length tbl \<and> length rs1 = length tbl \<and> rs1 ! i = rs ! i) \<and>
         (\<exists>rs rs1. cabin_loo_rates s tbl = Inr rs \<and>
            cabin_loo_rates s (tbl[i := (tbl ! i)\<lparr>Survived := v\<rparr>]) = Inr rs1 \<and>
            length rs = length tbl \<and> length rs1 = length tbl \<and> rs1 ! i = rs ! i) \<and>
         (case family_pre_rates cfg tbl of
            Inl e \<Rightarrow> family_pre_rates cfg (tbl[i := (tbl ! i)\<lparr>Survived := v\<rparr>]) = Inl e
          | Inr rs \<Rightarrow>
              (\<exists>rs1. family_pre_rates cfg (tbl[i := (tbl ! i)\<lparr>Survived := v\<rparr>]) = Inr rs1 \<and>
                 length rs = length tbl \<and> length rs1 = length tbl \<and> rs1 ! i = rs ! i))"
proof -
  let ?tbl = "tbl[i := (tbl ! i)\<lparr>Survived := v\<rparr>]"
  have i1: "i < length ?tbl" and n1: "?tbl ! i = (tbl ! i)\<lparr>Survived := v\<rparr>"
    using assms by simp_all
  have ticket: "\<exists>rs rs1. ticket_loo_rates s a tbl = Inr rs \<and> ticket_loo_rates s a ?tbl = Inr rs1 \<and>
            length rs = length tbl \<and> length rs1 = length tbl \<and> rs1 ! i = rs ! i"
  proof -
    obtain rs where rs: "ticket_loo_rates s a tbl = Inr rs" "length rs = length tbl"
        "ticket_rate s a tbl (tbl ! i) = Inr (rs ! i)"
      using ticket_loo_rates_total [of s a tbl] assms by blast
    obtain rs1 where rs1: "ticket_loo_rates s a ?tbl = Inr rs1" "length rs1 = length ?tbl"
        "ticket_rate s a ?tbl (?tbl ! i) = Inr (rs1 ! i)"
      using ticket_loo_rates_total [of s a ?tbl] i1 by blast
    from rs(3) rs1(3) have "rs1 ! i = rs ! i"
      unfolding n1 ticket_rate_own [OF assms] by simp
    with rs rs1 show ?thesis by simp
  qed
  have cabin: "\<exists>rs rs1. cabin_loo_rates s tbl = Inr rs \<and> cabin_loo_rates s ?tbl = Inr rs1 \<and>
            length rs = length tbl \<and> length rs1 = length tbl \<and> rs1 ! i = rs ! i"
  proof -
    obtain rs where rs: "cabin_loo_rates s tbl = Inr rs" "length rs = length tbl"
        "cabin_rate s tbl (tbl ! i) = Inr (rs ! i)"
      using cabin_loo_rates_total [of s tbl] assms by blast
    obtain rs1 where rs1: "cabin_loo_rates s ?tbl = Inr rs1" "length rs1 = length ?tbl"
        "cabin_rate s ?tbl (?tbl ! i) = Inr (rs1 ! i)"
      using cabin_loo_rates_total [of s ?tbl] i1 by blast
    from rs(3) rs1(3) have "rs1 ! i = rs ! i"
      unfolding n1 cabin_rate_own [OF assms] by simp
    with rs rs1 show ?thesis by simp
  qed
  have ids: "fill_family_ids (use_fare cfg) ?tbl = fill_family_ids (use_fare cfg) tbl"
    by (rule fill_family_ids_own_outcome)
  have family: "case family_pre_rates cfg tbl of
            Inl e \<Rightarrow> family_pre_rates cfg ?tbl = Inl e
          | Inr rs \<Rightarrow>
              (\<exists>rs1. family_pre_rates cfg ?tbl = Inr rs1 \<and>
                 length rs = length tbl \<and> length rs1 = length tbl \<and> rs1 ! i = rs ! i)"
  proof (cases "fill_family_ids (use_fare cfg) tbl")
    case (Inl e)
    then show ?thesis by (simp add: family_pre_rates_def ids)
  next
    case (Inr st)
    have len: "length (Family st) = length tbl"
      using Inr by (rule fill_family_ids_length)
    from Inr len assms show ?thesis
      by (simp add: family_pre_rates_def ids family_loo_rates_nth family_rate_own)
  qed
  from ticket cabin family show ?thesis by blast
qed

theorem leave_one_out_purity_witness:
  "ticket_loo_rates False False cabin_rows = Inr [Some 0, Some 1, Some (1 / 2)] \<and>
   (\<exists>rs1. ticket_loo_rates False False (cabin_rows[0 := (cabin_rows ! 0)\<lparr>Survived := Some 0\<rparr>]) = Inr rs1 \<and>
       rs1 ! 0 = Some 0) \<and>
   cabin_loo_rates False cabin_rows = Inr [Some 0, Some 1, Some (1 / 2)] \<and>
   (\<exists>rs1. cabin_loo_rates False (cabin_rows[0 := (cabin_rows ! 0)\<lparr>Survived := Some 0\<rparr>]) = Inr rs1 \<and>
       rs1 ! 0 = Some 0) \<and>
   family_pre_rates continuous cabin_rows = Inr [Some 0, Some 1, Some (1 / 2)] \<and>
   (\<exists>rs1. family_pre_rates continuous (cabin_rows[0 := (cabin_rows ! 0)\<lparr>Survived := Some 0\<rparr>]) = Inr rs1 \<and>
       rs1 ! 0 = Some 0)"
proof -
  have l: "0 < length cabin_rows" by code_simp
  have t: "ticket_loo_rates False False cabin_rows = Inr [Some 0, Some 1, Some (1 / 2)]" by code_simp
  have c: "cabin_loo_rates False cabin_rows = Inr [Some 0, Some 1, Some (1 / 2)]" by code_simp
  have f: "family_pre_rates continuous cabin_rows = Inr [Some 0, Some 1, Some (1 / 2)]" by code_simp
  from leave_one_out_purity [OF l, where s = False and a = False and v = "Some 0" and cfg = continuous] t c f
  show ?thesis by auto
qed

section \<open>The first loop of the grouping\<close>

lemma wf_ids_nth: "wf_ids fams \<Longrightarrow> k < length fams \<Longrightarrow> fId (fams ! k) = k"
proof -
  assume a: "wf_ids fams" and k: "k < length fams"
  have "map fId fams ! k = [0..<length fams] ! k"
    using a by (simp add: wf_ids_def)
  with k show ?thesis by simp
qed

lemma wf_ids_mem: "wf_ids fams \<Longrightarrow> h \<in> set fams \<Longrightarrow> fId h < length fams \<and> fams ! fId h = h"
proof -
  assume a: "wf_ids fams" and "h \<in> set fams"
  then obtain k where "k < length fams" "fams ! k = h"
    by (auto simp: in_set_conv_nth)
  with wf_ids_nth [OF a, of k] show ?thesis by simp
qed

lemma wf_ids_I: "(\<And>k. k < length fams \<Longrightarrow> fId (fams ! k) = k) \<Longrightarrow> wf_ids fams"
  unfolding wf_ids_def by (rule nth_equalityI) simp_all

lemma bump_by_id:
  assumes "wf_ids fams"
  shows "map (\<lambda>g. if fId g = f then u g else g) fams
           = (if f < length fams then fams[f := u (fams ! f)] else fams)"
proof (rule nth_equalityI)
  show "length (map (\<lambda>g. if fId g = f then u g else g) fams)
          = length (if f < length fams then fams[f := u (fams ! f)] else fams)"
    by simp
next
  fix k assume "k < length (map (\<lambda>g. if fId g = f then u g else g) fams)"
  then have k: "k < length fams" by simp
  with assms have "fId (fams ! k) = k" by (rule wf_ids_nth)
  with k show "map (\<lambda>g. if fId g = f then u g else g) fams ! k
                 = (if f < length fams then fams[f := u (fams ! f)] else fams) ! k"
    by (auto simp: nth_list_update)
qed

lemma find_family_cases:
  assumes "wf_ids fams" and "find_family p fams = (f, fams1)"
  shows "(f < length fams \<and> fams1 = fams) \<or>
         (f = length fams \<and>
          fams1 = fams @ [\<lparr>fPclass = Pclass p, fEmbarked = Embarked p, fLastname = Lastname p,
                            fId = length fams, Size = 0\<rparr>])"
proof -
  let ?fams = "filter (\<lambda>g. fPclass g = Pclass p \<and> fEmbarked g = Embarked p) fams"
  let ?exact = "filter (\<lambda>g. fLastname g = Lastname p) ?fams"
  show ?thesis
  proof (cases "?fams \<noteq> [] \<and> ?exact \<noteq> []")
    case True
    then have "?exact \<noteq> []" ..
    then have "hd ?exact \<in> set ?exact" by (rule hd_in_set)
    then have "hd ?exact \<in> set ?fams" by (rule filter_is_subset [THEN subsetD])
    then have "hd ?exact \<in> set fams" by (rule filter_is_subset [THEN subsetD])
    with assms(1) have l: "fId (hd ?exact) < length fams" by (simp add: wf_ids_mem)
    have "find_family p fams = (fId (hd ?exact), fams)"
      using True by (simp add: find_family_def Let_def)
    with assms(2) have "f = fId (hd ?exact)" "fams1 = fams" by auto
    with l show ?thesis by simp
  next
    case False
    have "find_family p fams = new_family p fams"
      using False by (cases "?fams = []") (simp_all add: find_family_def Let_def eq_nan_def)
    with assms(2) show ?thesis
      by (auto simp: new_family_def Let_def)
  qed
qed

lemma count_of_update:
  assumes "i < length col" and "col ! i = None"
  shows "count_of (col[i := Some f]) k = count_of col k + (if k = f then 1 else 0)"
proof -
  have "int (count_of (col[i := Some f]) k) - (if Some f = Some k then 1 else 0)
          = int (count_of col k) - (if col ! i = Some k then 1 else 0)"
    unfolding count_of_def using assms(1) by (rule count_update)
  with assms(2) show ?thesis by (simp split: if_splits)
qed

lemma count_of_zero: "(\<forall>v\<in>set col. v \<noteq> Some k) \<Longrightarrow> count_of col k = 0"
  by (simp add: count_of_def filter_empty_conv)

lemma wf_ids_resize:
  assumes "wf_ids fams"
  shows "wf_ids (fams[f := (fams ! f)\<lparr>Size := s\<rparr>])"
proof (rule wf_ids_I)
  fix k assume "k < length (fams[f := (fams ! f)\<lparr>Size := s\<rparr>])"
  then have k: "k < length fams" by simp
  with assms have "fId (fams ! k) = k" by (rule wf_ids_nth)
  with k show "fId (fams[f := (fams ! f)\<lparr>Size := s\<rparr>] ! k) = k"
    by (cases "k = f") simp_all
qed

lemma wf_ids_snoc:
  assumes "wf_ids fams" and "fId g = length fams"
  shows "wf_ids (fams @ [g])"
proof (rule wf_ids_I)
  fix k assume "k < length (fams @ [g])"
  then consider "k < length fams" | "k = length fams" by fastforce
  then show "fId ((fams @ [g]) ! k) = k"
  proof cases
    case 1
    with assms(1) show ?thesis by (simp add: nth_append wf_ids_nth)
  next
    case 2
    with assms(2) show ?thesis by simp
  qed
qed

lemma rows_inv_initial: "rows_inv tbl 0 (initial tbl)"
  by (simp add: rows_inv_def initial_def wf_ids_def)

lemma assign_family_skip:
  "SibSp (tbl ! n) = 0 \<and> Parch (tbl ! n) = 0 \<Longrightarrow> assign_family tbl n st = st"
  by (simp add: assign_family_def)

lemma assign_family_old:
  assumes "\<not> (SibSp (tbl ! n) = 0 \<and> Parch (tbl ! n) = 0)" and "wf_ids (families st)"
    and "find_family (tbl ! n) (families st) = (f, fams1)" and "f < length (families st)"
    and "fams1 = families st"
  shows "assign_family tbl n st
           = \<lparr>Family = (Family st)[n := Some f],
              families = (families st)[f := (families st ! f)\<lparr>Size := Size (families st ! f) + 1\<rparr>]\<rparr>"
  using assms by (auto simp: assign_family_def Let_def bump_by_id)

lemma assign_family_new:
  assumes "\<not> (SibSp (tbl ! n) = 0 \<and> Parch (tbl ! n) = 0)" and "wf_ids (families st)"
    and "find_family (tbl ! n) (families st) = (f, fams1)" and "f = length (families st)"
    and "fams1 = families st @ [g]" and "fId g = length (families st)"
  shows "assign_family tbl n st
           = \<lparr>Family = (Family st)[n := Some f],
              families = families st @ [g\<lparr>Size := Size g + 1\<rparr>]\<rparr>"
proof -
  have w: "wf_ids (families st @ [g])"
    using assms(2,6) by (rule wf_ids_snoc)
  have m: "map (\<lambda>h. if fId h = f then h\<lparr>Size := Size h + 1\<rparr> else h) (families st @ [g])
             = families st @ [g\<lparr>Size := Size g + 1\<rparr>]"
    unfolding bump_by_id [OF w] using assms(4) by simp
  show ?thesis
    using assms(1,3,5) by (auto simp: assign_family_def Let_def m simp del: map_append)
qed

lemma assign_family_inv:
  assumes n: "n < length tbl" and inv: "rows_inv tbl n st"
  shows "rows_inv tbl (Suc n) (assign_family tbl n st)"
proof (cases "SibSp (tbl ! n) = 0 \<and> Parch (tbl ! n) = 0")
  case True
  have "Family st ! n = None" using inv n by (simp add: rows_inv_def)
  with True inv show ?thesis
    by (auto simp: assign_family_skip rows_inv_def less_Suc_eq)
next
  case False
  let ?col = "Family st" and ?fams = "families st"
  from inv have len: "length ?col = length tbl" and wf: "wf_ids ?fams"
    and pend: "\<forall>k<length ?fams. pending st k"
    and small: "\<forall>i<length tbl. \<forall>k. ?col ! i = Some k \<longrightarrow> k < length ?fams"
    and rest: "\<forall>i<length tbl. n \<le> i \<longrightarrow> ?col ! i = None"
    and past: "\<forall>i<n. (?col ! i = None) = (SibSp (tbl ! i) = 0 \<and> Parch (tbl ! i) = 0)"
    by (simp_all add: rows_inv_def)
  have none: "?col ! n = None" using rest n by simp
  have nl: "n < length ?col" using n len by simp
  obtain f fams1 where ff: "find_family (tbl ! n) ?fams = (f, fams1)"
    by (cases "find_family (tbl ! n) ?fams")
  have cnt: "count_of (?col[n := Some f]) k = count_of ?col k + (if k = f then 1 else 0)" for k
    using nl none by (rule count_of_update)
  from find_family_cases [OF wf ff] show ?thesis
  proof
    assume a: "f < length ?fams \<and> fams1 = ?fams"
    have eq: "assign_family tbl n st
           = \<lparr>Family = ?col[n := Some f],
              families = ?fams[f := (?fams ! f)\<lparr>Size := Size (?fams ! f) + 1\<rparr>]\<rparr>"
      using False wf ff a by (intro assign_family_old) simp_all
    have p: "pending \<lparr>Family = ?col[n := Some f],
              families = ?fams[f := (?fams ! f)\<lparr>Size := Size (?fams ! f) + 1\<rparr>]\<rparr> k"
      if "k < length ?fams" for k
      using pend [rule_format, OF that] that by (cases "k = f") (simp_all add: pending_def cnt)
    show ?thesis
      unfolding eq rows_inv_def
      using len wf_ids_resize [OF wf] p small rest past a False n
      by (auto simp: nth_list_update less_Suc_eq)
  next
    let ?g = "\<lparr>fPclass = Pclass (tbl ! n), fEmbarked = Embarked (tbl ! n), fLastname = Lastname (tbl ! n),
                 fId = length ?fams, Size = 0\<rparr>"
    assume a: "f = length ?fams \<and> fams1 = ?fams @ [?g]"
    have eq: "assign_family tbl n st
           = \<lparr>Family = ?col[n := Some f], families = ?fams @ [?g\<lparr>Size := Size ?g + 1\<rparr>]\<rparr>"
      using False wf ff a by (intro assign_family_new) simp_all
    have "\<forall>v\<in>set ?col. v \<noteq> Some f"
    proof
      fix v assume "v \<in> set ?col"
      then obtain i where i: "i < length tbl" "?col ! i = v"
        using len by (auto simp: in_set_conv_nth)
      show "v \<noteq> Some f"
      proof
        assume "v = Some f"
        with small i have "f < length ?fams" by blast
        with a show False by simp
      qed
    qed
    then have z: "count_of ?col f = 0" by (rule count_of_zero)
    have p: "pending \<lparr>Family = ?col[n := Some f], families = ?fams @ [?g\<lparr>Size := Size ?g + 1\<rparr>]\<rparr> k"
      if "k < Suc (length ?fams)" for k
    proof (cases "k = f")
      case True
      with a z cnt [of f] show ?thesis by (simp add: pending_def)
    next
      case False
      with that a have "k < length ?fams" by simp
      with pend [rule_format, of k] False cnt [of k] show ?thesis by (simp add: pending_def nth_append)
    qed
    have w: "wf_ids (?fams @ [?g\<lparr>Size := Size ?g + 1\<rparr>])"
      using wf by (rule wf_ids_snoc) simp
    show ?thesis
      unfolding eq rows_inv_def
      using len w p small rest past a False n
      by (auto simp: nth_list_update less_Suc_eq)
  qed
qed

lemma fold_assign_family_inv:
  "n \<le> length tbl \<Longrightarrow> rows_inv tbl n (fold (assign_family tbl) [0..<n] (initial tbl))"
proof (induction n)
  case 0
  show ?case by (simp add: rows_inv_initial)
next
  case (Suc n)
  then show ?case by (simp add: assign_family_inv)
qed

lemma group_rows_inv: "rows_inv tbl (length tbl) (group_rows tbl)"
  unfolding group_rows_def by (rule fold_assign_family_inv) simp

section \<open>The rows of a group\<close>

lemma members_length: "length tbl = length col \<Longrightarrow> length (members tbl col k) = count_of col k"
  by (simp add: members_def count_of_def count_by_cell)

lemma members_subset: "set (members tbl col k) \<subseteq> set tbl"
  by (auto simp: members_def dest: set_zip_leftD)

lemma set_members:
  "set (members tbl col k) = {p. (p, Some k) \<in> set (zip tbl col)}"
  by (auto simp: members_def image_iff)

lemma members_map:
  "members tbl (map r col) k = map fst (filter (\<lambda>(p, v). r v = Some k) (zip tbl col))"
  by (simp add: members_def zip_map2 filter_map o_def case_prod_unfold)

lemma members_relabel_self:
  assumes "f \<noteq> g"
  shows "members tbl (map (relabel f g) col) f = []"
  using assms by (simp add: members_map relabel_def filter_empty_conv)

lemma members_relabel_other:
  assumes "k \<noteq> f" and "k \<noteq> g"
  shows "members tbl (map (relabel f g) col) k = members tbl col k"
proof -
  have h: "(\<lambda>(p::passenger, v). relabel f g v = Some k) = (\<lambda>(p, v). v = Some k)"
    using assms by (auto simp: relabel_def fun_eq_iff)
  show ?thesis unfolding members_map h by (simp add: members_def)
qed

lemma members_relabel_target:
  assumes "f \<noteq> g"
  shows "set (members tbl (map (relabel f g) col) g) = set (members tbl col g) \<union> set (members tbl col f)"
proof -
  have h: "(\<lambda>(p::passenger, v). relabel f g v = Some g) = (\<lambda>(p, v). v = Some g \<or> v = Some f)"
    using assms by (auto simp: relabel_def fun_eq_iff)
  show ?thesis
    unfolding members_map h by (auto simp: members_def image_iff)
qed

lemma relabel_same [simp]: "map (relabel f f) col = col"
  by (simp add: relabel_def map_idI)

lemma count_of_map: "count_of (map r col) k = length (filter (\<lambda>v. r v = Some k) col)"
  by (simp add: count_of_def filter_map o_def)

lemma count_of_relabel_self: "f \<noteq> g \<Longrightarrow> count_of (map (relabel f g) col) f = 0"
  by (simp add: count_of_map relabel_def filter_empty_conv)

lemma count_of_relabel_other:
  assumes "k \<noteq> f" and "k \<noteq> g"
  shows "count_of (map (relabel f g) col) k = count_of col k"
proof -
  have h: "(\<lambda>v. relabel f g v = Some k) = (\<lambda>v. v = Some k)"
    using assms by (auto simp: relabel_def fun_eq_iff)
  show ?thesis unfolding count_of_map h by (simp add: count_of_def)
qed

lemma count_of_relabel_target:
  assumes "f \<noteq> g"
  shows "count_of (map (relabel f g) col) g = count_of col g + count_of col f"
proof -
  have h: "(\<lambda>v. relabel f g v = Some g) = (\<lambda>v. v = Some g \<or> v = Some f)"
    using assms by (auto simp: relabel_def fun_eq_iff)
  have "count_of (map (relabel f g) col) g = length (filter (\<lambda>v. v = Some g \<or> v = Some f) col)"
    unfolding count_of_map h ..
  also have "\<dots> = count_of col g + count_of col f"
    using assms by (induction col) (simp_all add: count_of_def)
  finally show ?thesis .
qed

lemma relabel_None: "(relabel f g v = None) = (v = None)"
  by (simp add: relabel_def)

section \<open>What stays fixed in the merge pass\<close>

lemma first_match_pairs:
  "first_match fams s
     = (case filter (\<lambda>(l, i). cell_eq (Some l) s) (zip (map fLastname fams) (map fId fams)) of
          [] \<Rightarrow> None
        | (l, i) # _ \<Rightarrow> Some i)"
proof -
  have "zip (map fLastname fams) (map fId fams) = map (\<lambda>g. (fLastname g, fId g)) fams"
    by (simp add: zip_map_map zip_same_conv_map o_def)
  then show ?thesis
    by (simp add: first_match_def filter_map o_def split: list.splits)
qed

lemma first_match_cong:
  "map fLastname fams1 = map fLastname fams \<Longrightarrow> map fId fams1 = map fId fams \<Longrightarrow>
   first_match fams1 s = first_match fams s"
  by (simp add: first_match_pairs)

lemma map_update_same: "F y = F (xs ! f) \<Longrightarrow> map F (xs[f := y]) = map F xs"
proof (cases "f < length xs")
  case True
  assume "F y = F (xs ! f)"
  with True have "F y = map F xs ! f" by simp
  then show ?thesis by (simp add: map_update)
next
  case False
  then show ?thesis by (simp add: not_less list_update_beyond)
qed

lemma absorb_names:
  "map fLastname (families (absorb tbl f fid h st)) = map fLastname (families st) \<and>
   map fId (families (absorb tbl f fid h st)) = map fId (families st)"
proof -
  let ?fams1 = "map (\<lambda>g. if fId g = fId h
                    then g\<lparr>Size := Size g + length (members tbl (Family st) fid)\<rparr> else g) (families st)"
  have a: "map fLastname ?fams1 = map fLastname (families st)" "map fId ?fams1 = map fId (families st)"
    by simp_all
  have "map fLastname (?fams1[f := (?fams1 ! f)\<lparr>Size := 0\<rparr>]) = map fLastname ?fams1"
       "map fId (?fams1[f := (?fams1 ! f)\<lparr>Size := 0\<rparr>]) = map fId ?fams1"
    by (rule map_update_same, simp)+
  with a show ?thesis by (simp add: absorb_def Let_def)
qed

lemma absorb_wf_ids: "wf_ids (families st) \<Longrightarrow> wf_ids (families (absorb tbl f fid h st))"
  using absorb_names [of tbl f fid h st] by (simp add: wf_ids_def)

lemma absorb_first_match:
  "first_match (families (absorb tbl f fid h st)) s = first_match (families st) s"
  using absorb_names [of tbl f fid h st] by (intro first_match_cong) simp_all

lemma absorb_relabel: "Family (absorb tbl f fid h st) = map (relabel fid (fId h)) (Family st)"
  by (simp add: absorb_Family relabel_def)

lemma absorb_Size:
  assumes "wf_ids (families st)" and "k < length (families st)"
  shows "Size (families (absorb tbl f fid h st) ! k)
           = (if k = f then 0
              else if k = fId h then Size (families st ! k) + length (members tbl (Family st) fid)
              else Size (families st ! k))"
proof -
  have "fId (families st ! k) = k"
    using assms by (rule wf_ids_nth)
  with assms(2) show ?thesis
    by (simp add: absorb_def Let_def nth_list_update)
qed

section \<open>A round of the merge pass keeps the invariant\<close>

lemma merge_visit_cases:
  assumes "merge_visit tbl f st = Inr st1"
  shows "(Size (families st ! f) \<noteq> 1 \<and> st1 = st) \<or>
         (\<exists>m ms. Size (families st ! f) = 1 \<and>
            members tbl (Family st) (fId (families st ! f)) = m # ms \<and>
            ((first_match (families st) (SecondaryLastname m) = None \<and> st1 = st) \<or>
             (\<exists>h hs. filter (\<lambda>g. cell_eq (Some (fLastname g)) (SecondaryLastname m)) (families st) = h # hs \<and>
                st1 = absorb tbl f (fId (families st ! f)) h st)))"
proof (cases "Size (families st ! f) = 1")
  case False
  with assms show ?thesis by (simp add: merge_visit_def)
next
  case True
  show ?thesis
  proof (cases "members tbl (Family st) (fId (families st ! f))")
    case Nil
    with assms True show ?thesis by (simp add: merge_visit_def)
  next
    case (Cons m ms)
    note mem = this
    show ?thesis
    proof (cases "filter (\<lambda>g. cell_eq (Some (fLastname g)) (SecondaryLastname m)) (families st)")
      case Nil
      then have "first_match (families st) (SecondaryLastname m) = None"
        by (simp add: first_match_def)
      moreover have "st1 = st"
        using assms True mem Nil
        by (auto simp: merge_visit_def eq_nan_def Let_def dest: sibling_branch_Inr)
      ultimately show ?thesis using True mem by simp
    next
      case (Cons h hs)
      have "st1 = absorb tbl f (fId (families st ! f)) h st"
        using assms True mem Cons
        by (auto simp: merge_visit_def eq_nan_def Let_def dest: sibling_branch_Inr split: if_splits)
      with True mem Cons show ?thesis by simp
    qed
  qed
qed

lemma settled_cong:
  assumes "Size (families st1 ! k) = Size (families st ! k)"
    and "count_of (Family st1) k = count_of (Family st) k"
    and "set (members tbl (Family st1) k) = set (members tbl (Family st) k)"
    and "\<And>s. first_match (families st1) s = first_match (families st) s"
  shows "settled tbl st1 k = settled tbl st k"
  using assms by (simp add: settled_def)

lemma pending_cong:
  assumes "Size (families st1 ! k) = Size (families st ! k)"
    and "count_of (Family st1) k = count_of (Family st) k"
  shows "pending st1 k = pending st k"
  using assms by (simp add: pending_def)

lemma pending_settled:
  assumes "pending st k" and "Size (families st ! k) \<noteq> 1"
  shows "settled tbl st k"
  using assms by (simp add: pending_def settled_def)

lemma first_match_Cons:
  assumes "wf_ids fams" and "filter (\<lambda>g. cell_eq (Some (fLastname g)) s) fams = h # hs"
  shows "first_match fams s = Some (fId h) \<and> fId h < length fams"
proof -
  have "h \<in> set fams" using filter_Cons_mem [OF assms(2)] by simp
  with assms(1) have "fId h < length fams" by (simp add: wf_ids_mem)
  with assms(2) show ?thesis by (simp add: first_match_def)
qed


lemma merge_visit_inv:
  assumes inv: "merge_inv tbl n st" and n: "n < length (families st)"
    and v: "merge_visit tbl n st = Inr st1"
  shows "merge_inv tbl (Suc n) st1"
proof -
  let ?col = "Family st" and ?fams = "families st"
  from inv have len: "length ?col = length tbl" and wf: "wf_ids ?fams"
    and each: "\<And>k. k < length ?fams \<Longrightarrow> if k < n then settled tbl st k else pending st k"
    by (simp_all add: merge_inv_def)
  have idn: "fId (?fams ! n) = n" using wf n by (rule wf_ids_nth)
  have pn: "pending st n" using each [OF n] by simp
  have before: "settled tbl st k" if "k < n" for k
    using each [of k] that n by simp
  have after: "pending st k" if "n < k" "k < length ?fams" for k
    using each [of k] that by simp
  have keep: "merge_inv tbl (Suc n) st" if "settled tbl st n"
    unfolding merge_inv_def using len wf that before after
    by (auto simp: less_Suc_eq)
  from merge_visit_cases [OF v] show ?thesis
  proof (elim disjE exE conjE)
    assume "Size (?fams ! n) \<noteq> 1" and "st1 = st"
    with pn show ?thesis by (simp add: keep pending_settled)
  next
    fix m ms
    assume one: "Size (?fams ! n) = 1" and mem: "members tbl ?col (fId (?fams ! n)) = m # ms"
      and none: "first_match ?fams (SecondaryLastname m) = None" and same: "st1 = st"
    have "length (members tbl ?col n) = 1"
      using pn one len by (simp add: members_length pending_def)
    with mem idn have "members tbl ?col n = [m]" by simp
    with pn none have "settled tbl st n" by (simp add: settled_def pending_def)
    with same show ?thesis by (simp add: keep)
  next
    fix m ms h hs
    assume one: "Size (?fams ! n) = 1" and mem: "members tbl ?col (fId (?fams ! n)) = m # ms"
      and flt: "filter (\<lambda>g. cell_eq (Some (fLastname g)) (SecondaryLastname m)) ?fams = h # hs"
      and st1: "st1 = absorb tbl n (fId (?fams ! n)) h st"
    let ?g = "fId h"
    have cn: "count_of ?col n = 1" using pn one by (simp add: pending_def)
    have c1: "length (members tbl ?col n) = 1"
      using cn len by (simp add: members_length)
    with mem idn have memn: "members tbl ?col n = [m]" by simp
    have fm: "first_match ?fams (SecondaryLastname m) = Some ?g" and g: "?g < length ?fams"
      using first_match_Cons [OF wf flt] by simp_all
    have st1': "st1 = absorb tbl n n h st" using st1 idn by simp
    have col1: "Family st1 = map (relabel n ?g) ?col"
      unfolding st1' by (rule absorb_relabel)
    have size1: "Size (families st1 ! k)
                   = (if k = n then 0 else if k = ?g then Size (?fams ! k) + 1 else Size (?fams ! k))"
      if "k < length ?fams" for k
      unfolding st1' using absorb_Size [OF wf that, of tbl n n h] c1 by simp
    have fm1: "first_match (families st1) s = first_match ?fams s" for s
      unfolding st1' by (rule absorb_first_match)
    have wf1: "wf_ids (families st1)" unfolding st1' using wf by (rule absorb_wf_ids)
    have lenf: "length (families st1) = length ?fams" unfolding st1' by simp
    have len1: "length (Family st1) = length tbl" using len by (simp add: col1)
    have goal: "if k < Suc n then settled tbl st1 k else pending st1 k" if k: "k < length ?fams" for k
    proof (cases "?g = n")
      case True
      have col: "Family st1 = ?col" using True by (simp add: col1)
      show ?thesis
      proof (cases "k = n")
        case True
        with memn fm \<open>?g = n\<close> show ?thesis
          by (simp add: settled_def size1 [OF n] col fm1)
      next
        case False
        have s: "Size (families st1 ! k) = Size (?fams ! k)"
          using size1 [OF k] False \<open>?g = n\<close> by simp
        from False consider "k < n" | "n < k" by fastforce
        then show ?thesis
        proof cases
          case 1
          with before [OF 1] show ?thesis
            by (simp add: settled_cong [of st1 k st tbl] s col fm1)
        next
          case 2
          with after [OF 2 k] show ?thesis
            by (simp add: pending_cong [of st1 k st] s col)
        qed
      qed
    next
      case False
      then have ng: "n \<noteq> ?g" by simp
      consider "k = n" | "k = ?g" "k < n" | "k = ?g" "n < k" | "k \<noteq> n" "k \<noteq> ?g"
        using False by fastforce
      then show ?thesis
      proof cases
        case 1
        then show ?thesis
          by (simp add: settled_def size1 [OF n] col1 members_relabel_self [OF ng])
      next
        case 2
        have s: "Size (families st1 ! k) = Size (?fams ! k) + 1"
          using size1 [OF k] 2 by simp
        have c: "count_of (Family st1) k = count_of ?col k + 1"
          using 2 cn by (simp add: col1 count_of_relabel_target [OF ng])
        have ms: "set (members tbl (Family st1) k) = set (members tbl ?col k) \<union> {m}"
          using 2 memn by (simp add: col1 members_relabel_target [OF ng])
        from before [OF 2(2)] fm 2(1) have "settled tbl st1 k"
          unfolding settled_def s c ms by (auto simp: fm1)
        with 2 show ?thesis by simp
      next
        case 3
        have s: "Size (families st1 ! k) = Size (?fams ! k) + 1"
          using size1 [OF k] 3 by simp
        have c: "count_of (Family st1) k = count_of ?col k + 1"
          using 3 cn by (simp add: col1 count_of_relabel_target [OF ng])
        from after [OF 3(2) k] have "pending st1 k"
          unfolding pending_def s c by simp
        with 3 show ?thesis by simp
      next
        case 4
        have s: "Size (families st1 ! k) = Size (?fams ! k)"
          using size1 [OF k] 4 by simp
        have c: "count_of (Family st1) k = count_of ?col k"
          using 4 by (simp add: col1 count_of_relabel_other)
        have ms: "members tbl (Family st1) k = members tbl ?col k"
          using 4 by (simp add: col1 members_relabel_other)
        from 4 consider "k < n" | "n < k" by fastforce
        then show ?thesis
        proof cases
          case 1
          with before [OF 1] show ?thesis
            by (simp add: settled_cong [of st1 k st tbl] s c ms fm1)
        next
          case 2
          with after [OF 2 k] show ?thesis
            by (simp add: pending_cong [of st1 k st] s c)
        qed
      qed
    qed
    show ?thesis
      unfolding merge_inv_def using len1 wf1 lenf goal by simp
  qed
qed

section \<open>The whole merge pass\<close>

lemma rows_inv_merge_inv: "rows_inv tbl n st \<Longrightarrow> merge_inv tbl 0 st"
  by (simp add: rows_inv_def merge_inv_def)

lemma merge_loop_inv:
  assumes "merge_loop tbl [n..<length (families st)] st = Inr st1" and "merge_inv tbl n st"
  shows "merge_inv tbl (max n (length (families st))) st1 \<and>
         length (families st1) = length (families st)"
  using assms
proof (induction "length (families st) - n" arbitrary: n st)
  case 0
  then show ?case by (simp add: max_def)
next
  case (Suc d)
  then have n: "n < length (families st)" by simp
  then have u: "[n..<length (families st)] = n # [Suc n..<length (families st)]"
    by (rule upt_conv_Cons)
  from Suc.prems(1) obtain st2 where v: "merge_visit tbl n st = Inr st2"
    and l: "merge_loop tbl [Suc n..<length (families st)] st2 = Inr st1"
    unfolding u by (auto split: sum.splits)
  have i2: "merge_inv tbl (Suc n) st2"
    using Suc.prems(2) n v by (rule merge_visit_inv)
  have f2: "length (families st2) = length (families st)"
    using merge_visit_length [OF v] by simp
  have d: "d = length (families st2) - Suc n" using Suc.hyps(2) f2 by simp
  from Suc.hyps(1) [OF d _ i2] l f2 n show ?case
    by (simp add: max_def)
qed

lemma merge_visit_total:
  assumes "sex_strings tbl" and "length (Family st) = length tbl" and "wf_ids (families st)"
    and "f < length (families st)" and "Size (families st ! f) \<le> count_of (Family st) f"
  shows "\<exists>st1. merge_visit tbl f st = Inr st1"
proof (cases "Size (families st ! f) = 1")
  case False
  then show ?thesis by (simp add: merge_visit_def)
next
  case True
  have idf: "fId (families st ! f) = f" using assms(3,4) by (rule wf_ids_nth)
  have "length (members tbl (Family st) f) \<noteq> 0"
    using assms(2,5) True by (simp add: members_length)
  then obtain m ms where mem: "members tbl (Family st) f = m # ms"
    by (cases "members tbl (Family st) f") simp_all
  then have "m \<in> set tbl" using members_subset [of tbl "Family st" f] by auto
  then have pid: "PassengerId m \<in> PassengerId ` set tbl" by simp
  show ?thesis
    using True
    by (simp add: merge_visit_def idf mem eq_nan_def Let_def sibling_branch_strings [OF assms(1)] pid)
qed

lemma merge_inv_Size_le:
  assumes "merge_inv tbl n st" and "k < length (families st)"
  shows "Size (families st ! k) \<le> count_of (Family st) k"
proof -
  have "if k < n then settled tbl st k else pending st k"
    using assms by (simp add: merge_inv_def)
  then show ?thesis by (simp add: settled_def pending_def split: if_splits)
qed

lemma merge_loop_total:
  assumes "sex_strings tbl" and "merge_inv tbl n st"
  shows "\<exists>st1. merge_loop tbl [n..<length (families st)] st = Inr st1"
  using assms(2)
proof (induction "length (families st) - n" arbitrary: n st)
  case 0
  then show ?case by simp
next
  case (Suc d)
  then have n: "n < length (families st)" by simp
  then have u: "[n..<length (families st)] = n # [Suc n..<length (families st)]"
    by (rule upt_conv_Cons)
  have len: "length (Family st) = length tbl" and wf: "wf_ids (families st)"
    using Suc.prems by (simp_all add: merge_inv_def)
  obtain st2 where v: "merge_visit tbl n st = Inr st2"
    using merge_visit_total [OF assms(1) len wf n merge_inv_Size_le [OF Suc.prems n]] by blast
  have i2: "merge_inv tbl (Suc n) st2"
    using Suc.prems n v by (rule merge_visit_inv)
  have f2: "length (families st2) = length (families st)"
    using merge_visit_length [OF v] by simp
  have d: "d = length (families st2) - Suc n" using Suc.hyps(2) f2 by simp
  from Suc.hyps(1) [OF d i2] obtain st1 where "merge_loop tbl [Suc n..<length (families st2)] st2 = Inr st1"
    by blast
  then show ?case unfolding u by (simp add: v f2)
qed

lemma fill_family_ids_total:
  assumes "sex_strings tbl"
  shows "\<exists>st. fill_family_ids u tbl = Inr st"
proof (cases u)
  case True
  then show ?thesis by (simp add: fill_family_ids_def)
next
  case False
  have "merge_inv tbl 0 (group_rows tbl)"
    using group_rows_inv by (rule rows_inv_merge_inv)
  from merge_loop_total [OF assms this] False show ?thesis
    by (simp add: fill_family_ids_def merge_pass_def)
qed

lemma merge_pass_inv:
  assumes "merge_pass tbl (group_rows tbl) = Inr st"
  shows "merge_inv tbl (length (families st)) st"
proof -
  have i: "merge_inv tbl 0 (group_rows tbl)"
    using group_rows_inv by (rule rows_inv_merge_inv)
  from merge_loop_inv [OF assms [unfolded merge_pass_def] i] show ?thesis
    by (simp add: max_def)
qed

section \<open>Which rows have a group\<close>

lemma merge_visit_missing:
  "merge_visit tbl f st = Inr st1 \<Longrightarrow>
   map (\<lambda>v. v = None) (Family st1) = map (\<lambda>v. v = None) (Family st)"
  by (auto dest!: merge_visit_Inr simp: absorb_relabel relabel_None)

lemma merge_loop_missing:
  "merge_loop tbl fs st = Inr st1 \<Longrightarrow>
   map (\<lambda>v. v = None) (Family st1) = map (\<lambda>v. v = None) (Family st)"
proof (induction fs arbitrary: st)
  case Nil
  then show ?case by simp
next
  case (Cons f fs)
  then obtain st2 where v: "merge_visit tbl f st = Inr st2" and l: "merge_loop tbl fs st2 = Inr st1"
    by (auto split: sum.splits)
  from Cons.IH [OF l] merge_visit_missing [OF v] show ?case by simp
qed

lemma same_missing_nth:
  assumes "map (\<lambda>v. v = None) xs = map (\<lambda>v. v = None) ys" and "i < length ys"
  shows "(xs ! i = None) = (ys ! i = None)"
proof -
  have "length xs = length ys" using assms(1) by (rule map_eq_imp_length_eq)
  with assms(2) have "map (\<lambda>v. v = None) xs ! i = (xs ! i = None)"
    "map (\<lambda>v. v = None) ys ! i = (ys ! i = None)" by simp_all
  with assms(1) show ?thesis by simp
qed

text \<open>
  C5. In the default mode, whenever \<open>_fill_family_ids\<close> returns, every row with
  \<open>SibSp + Parch > 0\<close> has a \<open>Family\<close> and every row with \<open>SibSp = 0\<close> and \<open>Parch = 0\<close> has
  none; and it does return when the \<open>Sex\<close> column holds the strings \<open>male\<close> and \<open>female\<close>
  only.
\<close>

theorem family_partition_totality:
  "(\<forall>st. fill_family_ids False tbl = Inr st \<longrightarrow>
      length (Family st) = length tbl \<and>
      (\<forall>i<length tbl.
         (SibSp (tbl ! i) + Parch (tbl ! i) > 0 \<longrightarrow> Family st ! i \<noteq> None) \<and>
         (SibSp (tbl ! i) = 0 \<and> Parch (tbl ! i) = 0 \<longrightarrow> Family st ! i = None))) \<and>
   (sex_strings tbl \<longrightarrow> (\<exists>st. fill_family_ids False tbl = Inr st))"
proof -
  have a: "length (Family st) = length tbl \<and>
      (\<forall>i<length tbl.
         (SibSp (tbl ! i) + Parch (tbl ! i) > 0 \<longrightarrow> Family st ! i \<noteq> None) \<and>
         (SibSp (tbl ! i) = 0 \<and> Parch (tbl ! i) = 0 \<longrightarrow> Family st ! i = None))"
    if r: "fill_family_ids False tbl = Inr st" for st
  proof -
    from r have l: "length (Family st) = length tbl" by (rule fill_family_ids_length)
    from r have m: "merge_loop tbl [0..<length (families (group_rows tbl))] (group_rows tbl) = Inr st"
      by (simp add: fill_family_ids_def merge_pass_def)
    have g: "\<forall>i<length tbl. (Family (group_rows tbl) ! i = None)
                                = (SibSp (tbl ! i) = 0 \<and> Parch (tbl ! i) = 0)"
      using group_rows_inv [of tbl] by (simp add: rows_inv_def)
    have s: "(Family st ! i = None) = (SibSp (tbl ! i) = 0 \<and> Parch (tbl ! i) = 0)"
      if "i < length tbl" for i
      using same_missing_nth [OF merge_loop_missing [OF m], of i] that g by simp
    from l s show ?thesis by auto
  qed
  have b: "\<exists>st. fill_family_ids False tbl = Inr st" if "sex_strings tbl"
    using that by (rule fill_family_ids_total)
  from a b show ?thesis by blast
qed

theorem family_partition_totality_witness:
  "sex_strings merge_rows \<and>
   (\<exists>st. fill_family_ids False merge_rows = Inr st \<and> Family st = [Some 1, Some 1, Some 0, None]) \<and>
   map (\<lambda>p. SibSp p + Parch p) merge_rows = [1, 1, 1, 0]"
proof -
  have s: "sex_strings merge_rows" by code_simp
  have e: "Family (projr (fill_family_ids False merge_rows)) = [Some 1, Some 1, Some 0, None]"
    by code_simp
  have c: "map (\<lambda>p. SibSp p + Parch p) merge_rows = [1, 1, 1, 0]" by code_simp
  from family_partition_totality [of merge_rows] s e c show ?thesis by auto
qed

section \<open>Running the merge pass again\<close>

lemma merge_inv_settled:
  "merge_inv tbl (length (families st)) st \<Longrightarrow> k < length (families st) \<Longrightarrow> settled tbl st k"
  by (simp add: merge_inv_def)

lemma second_visit:
  assumes inv: "merge_inv tbl (length (families st)) st" and f: "f < length (families st)"
    and v: "merge_visit tbl f st = Inr st1"
  shows "merge_inv tbl (length (families st1)) st1 \<and> Family st1 = Family st \<and>
         length (families st1) = length (families st) \<and>
         (\<forall>k<length (families st).
            Size (families st1 ! k) = Size (families st ! k) \<or>
            Size (families st ! k) = 1 \<and> Size (families st1 ! k) = 0)"
proof -
  let ?col = "Family st" and ?fams = "families st"
  from inv have len: "length ?col = length tbl" and wf: "wf_ids ?fams"
    by (simp_all add: merge_inv_def)
  have idf: "fId (?fams ! f) = f" using wf f by (rule wf_ids_nth)
  from merge_visit_cases [OF v] consider "st1 = st"
    | m ms h hs where "Size (?fams ! f) = 1" "members tbl ?col (fId (?fams ! f)) = m # ms"
        "filter (\<lambda>g. cell_eq (Some (fLastname g)) (SecondaryLastname m)) ?fams = h # hs"
        "st1 = absorb tbl f (fId (?fams ! f)) h st"
    by blast
  then show ?thesis
  proof cases
    case 1
    with inv show ?thesis by simp
  next
    case 2
    have sf: "settled tbl st f" using inv f by (rule merge_inv_settled)
    have "m \<in> set (members tbl ?col f)" using 2(2) idf by simp
    with sf 2(1) have "first_match ?fams (SecondaryLastname m) = None \<or>
                       first_match ?fams (SecondaryLastname m) = Some f"
      by (simp add: settled_def)
    moreover have "first_match ?fams (SecondaryLastname m) = Some (fId h)"
      using first_match_Cons [OF wf 2(3)] by simp
    ultimately have h: "fId h = f" by simp
    have st1: "st1 = absorb tbl f f h st" using 2(4) idf by simp
    have col1: "Family st1 = ?col"
      unfolding st1 by (simp add: absorb_relabel h)
    have size1: "Size (families st1 ! k) = (if k = f then 0 else Size (?fams ! k))"
      if "k < length ?fams" for k
      unfolding st1 using absorb_Size [OF wf that, of tbl f f h] h by simp
    have fm1: "first_match (families st1) s = first_match ?fams s" for s
      unfolding st1 by (rule absorb_first_match)
    have wf1: "wf_ids (families st1)" unfolding st1 using wf by (rule absorb_wf_ids)
    have lenf: "length (families st1) = length ?fams" unfolding st1 by simp
    have set1: "settled tbl st1 k" if k: "k < length ?fams" for k
    proof (cases "k = f")
      case True
      with sf 2(1) show ?thesis
        by (simp add: settled_def size1 [OF f] col1 fm1)
    next
      case False
      have "settled tbl st k" using inv k by (rule merge_inv_settled)
      with False show ?thesis
        by (simp add: settled_cong [of st1 k st tbl] size1 [OF k] col1 fm1)
    qed
    have "merge_inv tbl (length (families st1)) st1"
      unfolding merge_inv_def using len wf1 lenf set1 by (simp add: col1)
    moreover have "\<forall>k<length ?fams.
            Size (families st1 ! k) = Size (?fams ! k) \<or>
            Size (?fams ! k) = 1 \<and> Size (families st1 ! k) = 0"
      using size1 2(1) by auto
    ultimately show ?thesis using col1 lenf by simp
  qed
qed

lemma second_loop:
  assumes "merge_loop tbl fs st = Inr st1" and "merge_inv tbl (length (families st)) st"
    and "\<forall>f\<in>set fs. f < length (families st)"
  shows "Family st1 = Family st \<and> length (families st1) = length (families st) \<and>
         (\<forall>k<length (families st).
            Size (families st1 ! k) = Size (families st ! k) \<or>
            Size (families st ! k) = 1 \<and> Size (families st1 ! k) = 0)"
  using assms
proof (induction fs arbitrary: st)
  case Nil
  then show ?case by simp
next
  case (Cons f fs)
  from Cons.prems(1) obtain st2 where v: "merge_visit tbl f st = Inr st2"
    and l: "merge_loop tbl fs st2 = Inr st1"
    by (auto split: sum.splits)
  have f: "f < length (families st)" using Cons.prems(3) by simp
  note s = second_visit [OF Cons.prems(2) f v]
  have r: "\<forall>f\<in>set fs. f < length (families st2)" using Cons.prems(3) s by simp
  note i = Cons.IH [OF l conjunct1 [OF s] r]
  have "Size (families st1 ! k) = Size (families st ! k) \<or>
        Size (families st ! k) = 1 \<and> Size (families st1 ! k) = 0"
    if "k < length (families st)" for k
    using s i that by (metis zero_neq_one)
  with s i show ?case by simp
qed

lemma second_loop_total:
  assumes "sex_strings tbl" and "merge_inv tbl (length (families st)) st"
    and "\<forall>f\<in>set fs. f < length (families st)"
  shows "\<exists>st1. merge_loop tbl fs st = Inr st1"
  using assms(2,3)
proof (induction fs arbitrary: st)
  case Nil
  then show ?case by simp
next
  case (Cons f fs)
  have f: "f < length (families st)" using Cons.prems(2) by simp
  have len: "length (Family st) = length tbl" and wf: "wf_ids (families st)"
    using Cons.prems(1) by (simp_all add: merge_inv_def)
  obtain st2 where v: "merge_visit tbl f st = Inr st2"
    using merge_visit_total [OF assms(1) len wf f merge_inv_Size_le [OF Cons.prems(1) f]] by blast
  note s = second_visit [OF Cons.prems(1) f v]
  have r: "\<forall>f\<in>set fs. f < length (families st2)" using Cons.prems(2) s by simp
  from Cons.IH [OF conjunct1 [OF s] r] obtain st1 where "merge_loop tbl fs st2 = Inr st1" by blast
  with v show ?case by simp
qed

text \<open>
  C9, as stated, fails. In \<open>merge_rows\<close> the group 0 (\<open>A\<close>) is absorbed by the group 1
  (\<open>B\<close>) and then absorbs the group 2 (\<open>C\<close>, whose row has the \<open>SecondaryLastname\<close>
  \<open>A\<close>), so the first run ends with the sizes 1, 2, 0. A second run visits the group 0
  again, finds the group 0 itself for its only row, and leaves the sizes 0, 2, 0.
\<close>

theorem merge_twice_sizes_differ:
  "fill_family_ids False merge_rows
     = Inr \<lparr>Family = [Some 1, Some 1, Some 0, None],
            families = [fam_row ''A'' 0 1, fam_row ''B'' 1 2, fam_row ''C'' 2 0]\<rparr> \<and>
   merge_pass merge_rows
       \<lparr>Family = [Some 1, Some 1, Some 0, None],
        families = [fam_row ''A'' 0 1, fam_row ''B'' 1 2, fam_row ''C'' 2 0]\<rparr>
     = Inr \<lparr>Family = [Some 1, Some 1, Some 0, None],
            families = [fam_row ''A'' 0 0, fam_row ''B'' 1 2, fam_row ''C'' 2 0]\<rparr>"
  by (rule conjI; code_simp)

text \<open>
  C9, amended. Whenever the grouping of the default mode returns and the merge pass is
  run again on its result, the second run leaves the \<open>Family\<close> column as it is: the
  partition is the same. A \<open>Size\<close> is left as it is or goes from 1 to 0. Both runs
  return when the \<open>Sex\<close> column holds the strings \<open>male\<close> and \<open>female\<close> only.
\<close>

theorem merge_twice_same_partition:
  "(\<forall>st1 st2. fill_family_ids False tbl = Inr st1 \<longrightarrow> merge_pass tbl st1 = Inr st2 \<longrightarrow>
      Family st2 = Family st1 \<and> length (families st2) = length (families st1) \<and>
      (\<forall>k<length (families st1).
         Size (families st2 ! k) = Size (families st1 ! k) \<or>
         Size (families st1 ! k) = 1 \<and> Size (families st2 ! k) = 0)) \<and>
   (sex_strings tbl \<longrightarrow>
      (\<exists>st1 st2. fill_family_ids False tbl = Inr st1 \<and> merge_pass tbl st1 = Inr st2))"
proof -
  have i: "merge_inv tbl (length (families st1)) st1" if "fill_family_ids False tbl = Inr st1" for st1
    using that by (intro merge_pass_inv) (simp add: fill_family_ids_def)
  have a: "Family st2 = Family st1 \<and> length (families st2) = length (families st1) \<and>
      (\<forall>k<length (families st1).
         Size (families st2 ! k) = Size (families st1 ! k) \<or>
         Size (families st1 ! k) = 1 \<and> Size (families st2 ! k) = 0)"
    if 1: "fill_family_ids False tbl = Inr st1" and 2: "merge_pass tbl st1 = Inr st2" for st1 st2
    using 2 [unfolded merge_pass_def] i [OF 1] by (rule second_loop) simp
  have b: "\<exists>st1 st2. fill_family_ids False tbl = Inr st1 \<and> merge_pass tbl st1 = Inr st2"
    if s: "sex_strings tbl"
  proof -
    obtain st1 where 1: "fill_family_ids False tbl = Inr st1"
      using fill_family_ids_total [OF s] by blast
    have "\<exists>st2. merge_loop tbl [0..<length (families st1)] st1 = Inr st2"
      using s i [OF 1] by (rule second_loop_total) simp
    with 1 show ?thesis by (auto simp: merge_pass_def)
  qed
  from a b show ?thesis by blast
qed

theorem merge_twice_same_partition_witness:
  "sex_strings merge_rows \<and>
   (\<exists>st1 st2. fill_family_ids False merge_rows = Inr st1 \<and> merge_pass merge_rows st1 = Inr st2 \<and>
      Family st1 = [Some 1, Some 1, Some 0, None] \<and> Family st2 = Family st1)"
proof -
  have s: "sex_strings merge_rows" by code_simp
  have e: "Family (projr (fill_family_ids False merge_rows)) = [Some 1, Some 1, Some 0, None]"
    by code_simp
  from merge_twice_same_partition [of merge_rows] s
  obtain st1 st2 where r: "fill_family_ids False merge_rows = Inr st1" "merge_pass merge_rows st1 = Inr st2"
    by blast
  from merge_twice_same_partition [of merge_rows] r have "Family st2 = Family st1" by blast
  moreover from e r(1) have "Family st1 = [Some 1, Some 1, Some 0, None]" by simp
  ultimately show ?thesis using s r by blast
qed

section \<open>One singleton absorbed\<close>

lemma absorb_families:
  assumes "wf_ids (families st)"
  shows "families (absorb tbl f fid h st)
           = (let fams = families st; c = length (members tbl (Family st) fid);
                  fams1 = (if fId h < length fams
                           then fams[fId h := (fams ! fId h)\<lparr>Size := Size (fams ! fId h) + c\<rparr>]
                           else fams)
              in fams1[f := (fams1 ! f)\<lparr>Size := 0\<rparr>])"
  by (simp add: absorb_def Let_def bump_by_id [OF assms])

lemma merge_visit_absorbs:
  assumes "wf_ids (families st)" and "f < length (families st)"
    and "Size (families st ! f) = 1"
    and "members tbl (Family st) f = m # ms"
    and "SecondaryLastname m = Some s"
    and "filter (\<lambda>g. fLastname g = s) (families st) = h # hs"
    and "fId h \<noteq> f"
  shows "\<exists>st1. merge_visit tbl f st = Inr st1 \<and>
           Family st1 = map (\<lambda>v. if v = Some f then Some (fId h) else v) (Family st) \<and>
           length (families st1) = length (families st) \<and>
           Size (families st1 ! fId h) = Size (families st ! fId h) + length (members tbl (Family st) f) \<and>
           Size (families st1 ! f) = 0 \<and>
           (\<forall>k<length (families st). k \<noteq> f \<and> k \<noteq> fId h \<longrightarrow> families st1 ! k = families st ! k)"
proof -
  let ?fams = "families st"
  let ?st1 = "absorb tbl f f h st"
  have idf: "fId (?fams ! f) = f" using assms(1,2) by (rule wf_ids_nth)
  have flt: "filter (\<lambda>g. cell_eq (Some (fLastname g)) (Some s)) ?fams = h # hs"
    using assms(6) by (simp add: cell_eq_def)
  have "h \<in> set ?fams" using filter_Cons_mem [OF assms(6)] by simp
  with assms(1) have g: "fId h < length ?fams" by (simp add: wf_ids_mem)
  have zero: "Size (families ?st1 ! f) = 0"
    using absorb_Size [OF assms(1,2), of tbl f f h] by simp
  have grown: "Size (families ?st1 ! fId h) = Size (?fams ! fId h) + length (members tbl (Family st) f)"
    using absorb_Size [OF assms(1) g, of tbl f f h] assms(7) by simp
  have others: "families ?st1 ! k = ?fams ! k" if "k < length ?fams" "k \<noteq> f" "k \<noteq> fId h" for k
    using that g by (simp add: absorb_families [OF assms(1)] Let_def)
  have run: "merge_visit tbl f st = Inr ?st1"
    using assms(3,4,5) flt zero
    by (simp add: merge_visit_def idf eq_nan_def Let_def)
  show ?thesis
    using run zero grown others by (simp add: absorb_Family)
qed

section \<open>The fallback leaves no missing rate\<close>





lemma fold_set_class_length:
  "length fl = length tbl \<Longrightarrow>
   length (fold (\<lambda>c fl. map (\<lambda>(p, v). if Pclass p = c then Cell (class_mean tbl c) else v) (zip tbl fl)) cs fl)
     = length tbl"
  by (induction cs arbitrary: fl) simp_all


lemma default_filler_length [simp]: "length (default_filler s tbl) = length tbl"
  by (simp add: default_filler_def fold_set_class_length)
















section \<open>Fallback completeness\<close>






section \<open>The rows of an absorbed singleton stay where they are put\<close>

lemma merge_loop_append:
  "merge_loop tbl (xs @ ys) st
     = (case merge_loop tbl xs st of Inl e \<Rightarrow> Inl e | Inr st1 \<Rightarrow> merge_loop tbl ys st1)"
  by (induction xs arbitrary: st) (simp_all split: sum.splits)

lemma merge_loop_inv_upto:
  assumes "merge_loop tbl [n..<m] st = Inr st1" and "merge_inv tbl n st"
    and "m \<le> length (families st)"
  shows "merge_inv tbl (max n m) st1 \<and> length (families st1) = length (families st)"
  using assms
proof (induction "m - n" arbitrary: n st)
  case 0
  then show ?case by (simp add: max_def)
next
  case (Suc d)
  then have n: "n < m" by simp
  then have u: "[n..<m] = n # [Suc n..<m]" by (rule upt_conv_Cons)
  from Suc.prems(1) obtain st2 where v: "merge_visit tbl n st = Inr st2"
    and l: "merge_loop tbl [Suc n..<m] st2 = Inr st1"
    unfolding u by (auto split: sum.splits)
  have nl: "n < length (families st)" using n Suc.prems(3) by simp
  have i2: "merge_inv tbl (Suc n) st2"
    using Suc.prems(2) nl v by (rule merge_visit_inv)
  have f2: "length (families st2) = length (families st)"
    using merge_visit_length [OF v] by simp
  have d: "d = m - Suc n" using Suc.hyps(2) by simp
  have m2: "m \<le> length (families st2)" using Suc.prems(3) f2 by simp
  from Suc.hyps(1) [OF d l i2 m2] f2 n show ?case
    by (simp add: max_def)
qed

lemma visit_keeps:
  assumes inv: "merge_inv tbl n st" and n: "n < length (families st)"
    and v: "merge_visit tbl n st = Inr st1"
    and g: "g < length (families st)" and s: "safe n st g"
  shows "safe (Suc n) st1 g \<and>
         (\<forall>i<length (Family st). Family st ! i = Some g \<longrightarrow> Family st1 ! i = Some g) \<and>
         length (Family st1) = length (Family st)"
proof -
  from inv have wf: "wf_ids (families st)" by (simp add: merge_inv_def)
  have idn: "fId (families st ! n) = n" using wf n by (rule wf_ids_nth)
  from merge_visit_cases [OF v] consider "st1 = st"
    | h where "Size (families st ! n) = 1"
        "st1 = absorb tbl n (fId (families st ! n)) h st"
    by blast
  then show ?thesis
  proof cases
    case 1
    with s show ?thesis by (auto simp: safe_def)
  next
    case 2
    have gn: "g \<noteq> n" using s 2(1) by (auto simp: safe_def)
    have st1: "st1 = absorb tbl n n h st" using 2(2) idn by simp
    have col: "Family st1 = map (relabel n (fId h)) (Family st)"
      unfolding st1 by (rule absorb_relabel)
    have size: "Size (families st ! g) \<le> Size (families st1 ! g)"
      unfolding st1 using absorb_Size [OF wf g, of tbl n n h] gn by simp
    have keep: "Family st1 ! i = Some g" if "Family st ! i = Some g" "i < length (Family st)" for i
      using that gn by (simp add: col relabel_def)
    from s size keep show ?thesis by (auto simp: safe_def col)
  qed
qed

lemma loop_keeps:
  assumes "merge_loop tbl [n..<length (families st)] st = Inr st1" and "merge_inv tbl n st"
    and "g < length (families st)" and "safe n st g"
  shows "\<forall>i<length (Family st). Family st ! i = Some g \<longrightarrow> Family st1 ! i = Some g"
  using assms
proof (induction "length (families st) - n" arbitrary: n st)
  case 0
  then show ?case by simp
next
  case (Suc d)
  then have n: "n < length (families st)" by simp
  then have u: "[n..<length (families st)] = n # [Suc n..<length (families st)]"
    by (rule upt_conv_Cons)
  from Suc.prems(1) obtain st2 where v: "merge_visit tbl n st = Inr st2"
    and l: "merge_loop tbl [Suc n..<length (families st)] st2 = Inr st1"
    unfolding u by (auto split: sum.splits)
  have i2: "merge_inv tbl (Suc n) st2"
    using Suc.prems(2) n v by (rule merge_visit_inv)
  have f2: "length (families st2) = length (families st)"
    using merge_visit_length [OF v] by simp
  note k = visit_keeps [OF Suc.prems(2) n v Suc.prems(3,4)]
  have d: "d = length (families st2) - Suc n" using Suc.hyps(2) f2 by simp
  have g2: "g < length (families st2)" using Suc.prems(3) f2 by simp
  from Suc.hyps(1) [OF d _ i2 g2] l f2 k show ?case by simp
qed

text \<open>
  C4, as stated, fails in two ways. First, the group found can be the singleton itself:
  the only row of \<open>self_rows\<close> has both names \<open>A\<close>, its group 0 has \<open>Size\<close> 1 after the first
  loop, and the merge pass finds the group 0 for it, adds 1 to its \<open>Size\<close> and then sets
  it to 0, so the \<open>Size\<close> of the group found is not greater by the row count. Second, a
  group emptied by the pass can absorb a later singleton: in \<open>merge_rows\<close> the singleton 0
  (\<open>A\<close>, absorbed by the group 1, \<open>B\<close>) absorbs the singleton 2 (\<open>C\<close>, whose row has the
  \<open>SecondaryLastname\<close> \<open>A\<close>), so its \<open>Size\<close> is 1 after the pass, not 0.
\<close>

theorem singleton_merge_fails:
  "group_rows self_rows = \<lparr>Family = [Some 0], families = [fam_row ''A'' 0 1]\<rparr> \<and>
   map SecondaryLastname (members self_rows [Some 0] 0) = [Some ''A''] \<and>
   merge_pass self_rows \<lparr>Family = [Some 0], families = [fam_row ''A'' 0 1]\<rparr>
     = Inr \<lparr>Family = [Some 0], families = [fam_row ''A'' 0 0]\<rparr> \<and>
   group_rows merge_rows
     = \<lparr>Family = [Some 0, Some 1, Some 2, None],
        families = [fam_row ''A'' 0 1, fam_row ''B'' 1 1, fam_row ''C'' 2 1]\<rparr> \<and>
   map SecondaryLastname (members merge_rows [Some 0, Some 1, Some 2, None] 0) = [Some ''B''] \<and>
   merge_pass merge_rows
       \<lparr>Family = [Some 0, Some 1, Some 2, None],
        families = [fam_row ''A'' 0 1, fam_row ''B'' 1 1, fam_row ''C'' 2 1]\<rparr>
     = Inr \<lparr>Family = [Some 1, Some 1, Some 0, None],
            families = [fam_row ''A'' 0 1, fam_row ''B'' 1 2, fam_row ''C'' 2 0]\<rparr>"
  by (intro conjI; code_simp)

text \<open>
  C4, amended. Let the merge pass reach a group \<open>f\<close> of \<open>Size\<close> 1 whose first row \<open>m\<close> has a
  \<open>SecondaryLastname\<close> that is the \<open>Lastname\<close> of some group, the first such group \<open>h\<close> in
  index order not being \<open>f\<close> itself. Then the visit of \<open>f\<close> returns with every row of \<open>f\<close>
  carrying the \<open>Id\<close> of \<open>h\<close>, the \<open>Size\<close> of \<open>h\<close> greater by the number of rows \<open>f\<close> had, the
  \<open>Size\<close> of \<open>f\<close> at 0 and every other group as it was; and when the pass has ended, the
  rows that were in \<open>f\<close> still carry the \<open>Id\<close> of \<open>h\<close>.
\<close>

theorem singleton_merge:
  assumes reach: "merge_loop tbl [0..<f] (group_rows tbl) = Inr st"
    and f: "f < length (families st)"
    and one: "Size (families st ! f) = 1"
    and mem: "members tbl (Family st) f = m # ms"
    and sec: "SecondaryLastname m = Some s"
    and flt: "filter (\<lambda>g. fLastname g = s) (families st) = h # hs"
    and ne: "fId h \<noteq> f"
    and fin: "merge_pass tbl (group_rows tbl) = Inr st_end"
  shows "\<exists>st1. merge_visit tbl f st = Inr st1 \<and>
           Family st1 = map (\<lambda>v. if v = Some f then Some (fId h) else v) (Family st) \<and>
           Size (families st1 ! fId h) = Size (families st ! fId h) + length (members tbl (Family st) f) \<and>
           Size (families st1 ! f) = 0 \<and>
           (\<forall>k<length (families st). k \<noteq> f \<and> k \<noteq> fId h \<longrightarrow> families st1 ! k = families st ! k) \<and>
           (\<forall>i<length tbl. Family st ! i = Some f \<longrightarrow> Family st_end ! i = Some (fId h))"
proof -
  let ?g = "fId h"
  have N: "length (families st) = length (families (group_rows tbl))"
    using merge_loop_length [OF reach] by simp
  have i0: "merge_inv tbl 0 (group_rows tbl)"
    using group_rows_inv by (rule rows_inv_merge_inv)
  have inv: "merge_inv tbl f st"
    using merge_loop_inv_upto [OF reach i0] f N by (simp add: max_def)
  then have wf: "wf_ids (families st)" and len: "length (Family st) = length tbl"
    by (simp_all add: merge_inv_def)
  from merge_visit_absorbs [OF wf f one mem sec flt ne] obtain st1
    where v: "merge_visit tbl f st = Inr st1"
      and col: "Family st1 = map (\<lambda>v. if v = Some f then Some ?g else v) (Family st)"
      and grown: "Size (families st1 ! ?g) = Size (families st ! ?g) + length (members tbl (Family st) f)"
      and zero: "Size (families st1 ! f) = 0"
      and others: "\<forall>k<length (families st). k \<noteq> f \<and> k \<noteq> ?g \<longrightarrow> families st1 ! k = families st ! k"
    by blast
  have f1: "length (families st1) = length (families st)"
    using merge_visit_length [OF v] by simp
  have "h \<in> set (families st)" using filter_Cons_mem [OF flt] by simp
  with wf have g: "?g < length (families st)" by (simp add: wf_ids_mem)
  have "[0..<f + (length (families st) - f)] = [0..<f] @ [f..<f + (length (families st) - f)]"
    by (rule upt_add_eq_append) simp
  then have split: "[0..<length (families st)] = [0..<f] @ f # [Suc f..<length (families st)]"
    using f by (simp add: upt_conv_Cons)
  have rest: "merge_loop tbl [Suc f..<length (families st1)] st1 = Inr st_end"
    using fin unfolding merge_pass_def N [symmetric] split merge_loop_append
    by (simp add: reach v f1)
  have i1: "merge_inv tbl (Suc f) st1"
    using inv f v by (rule merge_visit_inv)
  have safe: "safe (Suc f) st1 ?g"
  proof (cases "?g < f")
    case True
    then show ?thesis by (simp add: safe_def)
  next
    case False
    with ne have "f < ?g" by simp
    then have "pending st ?g" using inv g by (simp add: merge_inv_def)
    then have "1 \<le> Size (families st ! ?g)" by (simp add: pending_def)
    with grown mem show ?thesis by (simp add: safe_def)
  qed
  have g1: "?g < length (families st1)" using g f1 by simp
  note keeps = loop_keeps [OF rest i1 g1 safe]
  have "Family st_end ! i = Some ?g" if "i < length tbl" "Family st ! i = Some f" for i
  proof -
    have "Family st1 ! i = Some ?g" using that len by (simp add: col)
    moreover have "i < length (Family st1)" using that(1) len by (simp add: col)
    ultimately show ?thesis using keeps by blast
  qed
  with v col grown zero others show ?thesis by blast
qed

theorem singleton_merge_witness:
  "merge_loop merge_rows [0..<0] (group_rows merge_rows) = Inr (group_rows merge_rows) \<and>
   Size (families (group_rows merge_rows) ! 0) = 1 \<and>
   members merge_rows (Family (group_rows merge_rows)) 0 = [merge_rows ! 0] \<and>
   SecondaryLastname (merge_rows ! 0) = Some ''B'' \<and>
   filter (\<lambda>g. fLastname g = ''B'') (families (group_rows merge_rows)) = [fam_row ''B'' 1 1] \<and>
   Family (group_rows merge_rows) = [Some 0, Some 1, Some 2, None] \<and>
   (\<exists>st1 st_end. merge_visit merge_rows 0 (group_rows merge_rows) = Inr st1 \<and>
      Family st1 = [Some 1, Some 1, Some 2, None] \<and>
      Size (families st1 ! 1) = 2 \<and> Size (families st1 ! 0) = 0 \<and>
      merge_pass merge_rows (group_rows merge_rows) = Inr st_end \<and> Family st_end ! 0 = Some 1)"
proof -
  let ?st = "group_rows merge_rows"
  let ?end = "\<lparr>Family = [Some 1, Some 1, Some 0, None],
            families = [fam_row ''A'' 0 1, fam_row ''B'' 1 2, fam_row ''C'' 2 0]\<rparr>"
  have 1: "merge_loop merge_rows [0..<0] ?st = Inr ?st" by simp
  have 2: "0 < length (families ?st)" by code_simp
  have 3: "Size (families ?st ! 0) = 1" by code_simp
  have 4: "members merge_rows (Family ?st) 0 = [merge_rows ! 0]" by code_simp
  have 5: "SecondaryLastname (merge_rows ! 0) = Some ''B''" by code_simp
  have 6: "filter (\<lambda>g. fLastname g = ''B'') (families ?st) = [fam_row ''B'' 1 1]" by code_simp
  have 7: "fId (fam_row ''B'' 1 1) \<noteq> 0" by code_simp
  have 8: "Family ?st = [Some 0, Some 1, Some 2, None]" by code_simp
  have 9: "Size (families ?st ! 1) = 1" by code_simp
  have 10: "fId (fam_row ''B'' 1 1) = 1" by (simp add: fam_row_def)
  have 11: "merge_pass merge_rows ?st = Inr ?end" by code_simp
  have 12: "0 < length merge_rows" by code_simp
  from singleton_merge [OF 1 2 3 4 5 6 7 11] obtain st1
    where r: "merge_visit merge_rows 0 ?st = Inr st1"
      "Family st1 = map (\<lambda>v. if v = Some 0 then Some (fId (fam_row ''B'' 1 1)) else v) (Family ?st)"
      "Size (families st1 ! fId (fam_row ''B'' 1 1))
         = Size (families ?st ! fId (fam_row ''B'' 1 1)) + length (members merge_rows (Family ?st) 0)"
      "Size (families st1 ! 0) = 0"
      "\<forall>i<length merge_rows. Family ?st ! i = Some 0 \<longrightarrow> Family ?end ! i = Some (fId (fam_row ''B'' 1 1))"
    by blast
  from r(2) have a: "Family st1 = [Some 1, Some 1, Some 2, None]" unfolding 8 10 by simp
  from r(3) have b: "Size (families st1 ! 1) = 2" unfolding 10 4 9 by simp
  from r(5) 12 have c: "Family ?end ! 0 = Some 1" unfolding 8 10 by simp
  from 1 3 4 5 6 8 r(1,4) a b c 11 show ?thesis by blast
qed

end
